theory Spec2Isabelle
  imports Main "HOL-Library.Word"
begin

unbundle bit_operations_syntax

section \<open>The AFSK1200 modem of Modem/afsk.c\<close>

text \<open>
  A shallow embedding of \<^verbatim>\<open>src/Modem/afsk.c\<close>: the sine sample generator, the HDLC
  deframer \<^verbatim>\<open>hdlcParse\<close>, the ADC callback \<^verbatim>\<open>afsk_adc_isr\<close>, the transmit start
  \<^verbatim>\<open>afsk_txStart\<close> and the DAC callback \<^verbatim>\<open>afsk_dac_isr\<close>. C's fixed-width integers
  are words; a signed field is read with \<open>sint\<close> where C reads it as a signed value.
\<close>

type_synonym uint8_t = "8 word"
type_synonym int8_t = "8 word"
type_synonym uint16_t = "16 word"
type_synonym int16_t = "16 word"

subsection \<open>Constants\<close>

definition HDLC_FLAG :: uint8_t where "HDLC_FLAG = 0x7E"
definition HDLC_RESET :: uint8_t where "HDLC_RESET = 0x7F"
definition AX25_ESC :: uint8_t where "AX25_ESC = 0x1B"

definition SIN_LEN :: uint16_t where "SIN_LEN = 512"

definition sin_table :: "uint8_t list" where
  "sin_table =
   [128, 129, 131, 132, 134, 135, 137, 138, 140, 142, 143, 145, 146, 148, 149, 151,
    152, 154, 155, 157, 158, 160, 162, 163, 165, 166, 167, 169, 170, 172, 173, 175,
    176, 178, 179, 181, 182, 183, 185, 186, 188, 189, 190, 192, 193, 194, 196, 197,
    198, 200, 201, 202, 203, 205, 206, 207, 208, 210, 211, 212, 213, 214, 215, 217,
    218, 219, 220, 221, 222, 223, 224, 225, 226, 227, 228, 229, 230, 231, 232, 233,
    234, 234, 235, 236, 237, 238, 238, 239, 240, 241, 241, 242, 243, 243, 244, 245,
    245, 246, 246, 247, 248, 248, 249, 249, 250, 250, 250, 251, 251, 252, 252, 252,
    253, 253, 253, 253, 254, 254, 254, 254, 254, 255, 255, 255, 255, 255, 255, 255]"

subsection \<open>The sine sample generator\<close>

text \<open>
  \<open>sinIndex i\<close> is the value of \<^verbatim>\<open>newI\<close> after lines 38 and 39 of the source, the
  index at which \<^verbatim>\<open>sinSample\<close> reads the quarter-wave table. The source's
  \<^verbatim>\<open>ASSERT(i < SIN_LEN)\<close> is a debugging check of the caller's obligation; the
  theorems about \<open>sinSample\<close> carry it as their hypothesis.
\<close>

definition sinIndex :: "uint16_t \<Rightarrow> uint16_t" where
  "sinIndex i =
     (let newI = i mod (SIN_LEN div 2)
      in if newI \<ge> SIN_LEN div 4 then SIN_LEN div 2 - newI - 1 else newI)"

definition sinSample :: "uint16_t \<Rightarrow> uint8_t" where
  "sinSample i =
     (let sine = sin_table ! unat (sinIndex i)
      in if i \<ge> SIN_LEN div 2 then 255 - sine else sine)"

text \<open>
  The index as the specification words it: the phase folded to \<open>i mod 256\<close> and, in the
  second quadrant, \<open>255 - folded - 1\<close>. Over \<open>int\<close>, since the formula leaves the
  table at \<open>folded = 255\<close>.
\<close>

definition sinIndex_as_specified :: "int \<Rightarrow> int" where
  "sinIndex_as_specified i =
     (let folded = i mod 256 in if folded \<ge> 128 then 255 - folded - 1 else folded)"

subsection \<open>Build-time configuration\<close>

text \<open>
  Modelled from the spec: \<^verbatim>\<open>config.h\<close>, \<^verbatim>\<open>afsk.h\<close> and \<^verbatim>\<open>cfg/macros.h\<close> are not among
  the sources. The spec fixes \<^verbatim>\<open>SAMPLE_RATE = 9600\<close>, \<^verbatim>\<open>BITRATE = 1200\<close> and
  \<^verbatim>\<open>SAMPLES_PER_BIT = 8\<close> (the source asserts the same three values statically) and
  leaves the preamble and trailer durations, the filter kind and the queue sizes to the
  build, so these are the fields of \<open>afsk_config\<close>. \<open>DIV_ROUND\<close> is division rounded to
  nearest, as the spec's \<open>round\<close>.
\<close>

datatype afsk_filter = AFSK_BUTTERWORTH | AFSK_CHEBYSHEV

record afsk_config =
  CONFIG_AFSK_PREAMBLE_LEN :: nat
  CONFIG_AFSK_TRAILER_LEN :: nat
  CONFIG_AFSK_FILTER :: afsk_filter
  CONFIG_AFSK_RX_BUFLEN :: nat
  CONFIG_AFSK_TX_BUFLEN :: nat

definition CONFIG_AFSK_DAC_SAMPLERATE :: nat where "CONFIG_AFSK_DAC_SAMPLERATE = 9600"
definition BITRATE :: nat where "BITRATE = 1200"
definition SAMPLESPERBIT :: nat where "SAMPLESPERBIT = 8"

definition DIV_ROUND :: "nat \<Rightarrow> nat \<Rightarrow> nat" where
  "DIV_ROUND dividend divisor = (dividend + divisor div 2) div divisor"

text \<open>
  Modelled from the spec: \<^verbatim>\<open>AFSK_RXFIFO_OVERRUN\<close> is declared in \<^verbatim>\<open>afsk.h\<close>; the spec
  defines it as the one flag of the status bitmask. Bit 0 stands for it here.
\<close>

definition AFSK_RXFIFO_OVERRUN :: int where "AFSK_RXFIFO_OVERRUN = 1"

text \<open>Phase sync and modulation constants, lines 49 to 63 and 267 of the source.\<close>

definition PHASE_BIT :: int where "PHASE_BIT = 8"
definition PHASE_INC :: int where "PHASE_INC = 1"
definition PHASE_MAX :: int where "PHASE_MAX = int SAMPLESPERBIT * PHASE_BIT"
definition PHASE_THRES :: int where "PHASE_THRES = PHASE_MAX div 2"

definition MARK_FREQ :: nat where "MARK_FREQ = 1200"
definition SPACE_FREQ :: nat where "SPACE_FREQ = 2200"

definition MARK_INC :: uint16_t where
  "MARK_INC = of_nat (DIV_ROUND (unat SIN_LEN * MARK_FREQ) CONFIG_AFSK_DAC_SAMPLERATE)"

definition SPACE_INC :: uint16_t where
  "SPACE_INC = of_nat (DIV_ROUND (unat SIN_LEN * SPACE_FREQ) CONFIG_AFSK_DAC_SAMPLERATE)"

definition DAC_SAMPLESPERBIT :: uint8_t where
  "DAC_SAMPLESPERBIT = of_nat (CONFIG_AFSK_DAC_SAMPLERATE div BITRATE)"

definition BIT_STUFF_LEN :: uint8_t where "BIT_STUFF_LEN = 5"

definition SWITCH_TONE :: "uint16_t \<Rightarrow> uint16_t" where
  "SWITCH_TONE inc = (if inc = MARK_INC then SPACE_INC else MARK_INC)"

definition BITS_DIFFER :: "uint8_t \<Rightarrow> uint8_t \<Rightarrow> uint8_t" where
  "BITS_DIFFER bits1 bits2 = (bits1 XOR bits2) AND 0x01"

definition EDGE_FOUND :: "uint8_t \<Rightarrow> bool" where
  "EDGE_FOUND bits = (BITS_DIFFER bits (drop_bit 1 bits) \<noteq> 0)"

subsection \<open>Byte queues\<close>

text \<open>
  Modelled from the spec: the queue type \<^verbatim>\<open>FIFOBuffer\<close> and its operations are declared
  in \<^verbatim>\<open>struct/fifobuf.h\<close>, which is not among the sources. The spec describes byte queues
  of bounded size, read in the order written, that a producer tests for fullness before
  it pushes and a consumer tests for emptiness before it pops. A queue is the list of
  its bytes, oldest first, and the number of bytes it holds at most. \<open>fifo_pop\<close> of an
  empty queue has no byte to return, which is \<open>None\<close>; \<open>fifo_push\<close> appends, and every
  push of the source is made after a test of \<open>fifo_isfull\<close> or after a pop of the same
  queue.
\<close>

record FIFOBuffer =
  items :: "uint8_t list"
  capacity :: nat

definition fifo_init :: "nat \<Rightarrow> FIFOBuffer" where
  "fifo_init n = \<lparr>items = [], capacity = n\<rparr>"

definition fifo_isempty :: "FIFOBuffer \<Rightarrow> bool" where
  "fifo_isempty fb = (items fb = [])"

definition fifo_isfull :: "FIFOBuffer \<Rightarrow> bool" where
  "fifo_isfull fb = (capacity fb \<le> length (items fb))"

definition fifo_push :: "FIFOBuffer \<Rightarrow> uint8_t \<Rightarrow> FIFOBuffer" where
  "fifo_push fb c = fb\<lparr>items := items fb @ [c]\<rparr>"

definition fifo_pop :: "FIFOBuffer \<Rightarrow> (uint8_t \<times> FIFOBuffer) option" where
  "fifo_pop fb = (case items fb of [] \<Rightarrow> None | c # cs \<Rightarrow> Some (c, fb\<lparr>items := cs\<rparr>))"

subsection \<open>The modem context\<close>

text \<open>
  Modelled from the spec: the structures \<^verbatim>\<open>Hdlc\<close> and \<^verbatim>\<open>Afsk\<close> are declared in
  \<^verbatim>\<open>afsk.h\<close>. The fields are those of the spec's data model: bytes and rolling 8-bit
  registers are 8-bit words, the DDS accumulator, its increment and the two flag counts
  are 16-bit words, the filter taps are signed 16-bit words (the width the spec
  requires of them), \<open>curr_phase\<close> is a signed 8-bit word. \<open>iir_x0\<close>, \<open>iir_x1\<close> stand for
  \<^verbatim>\<open>iir_x[0]\<close>, \<^verbatim>\<open>iir_x[1]\<close>, and likewise \<open>iir_y0\<close>, \<open>iir_y1\<close>. \<open>dac_irq\<close> records the DAC
  sample interrupt as the driver hooks \<^verbatim>\<open>AFSK_DAC_IRQ_START\<close> and \<^verbatim>\<open>AFSK_DAC_IRQ_STOP\<close>
  leave it.
\<close>

record Hdlc =
  demod_bits :: uint8_t
  bit_idx :: uint8_t
  currchar :: uint8_t
  rxstart :: bool

record Afsk =
  sample_count :: uint8_t
  curr_out :: uint8_t
  tx_bit :: uint8_t
  bit_stuff :: bool
  stuff_cnt :: uint8_t
  phase_acc :: uint16_t
  phase_inc :: uint16_t
  delay_fifo :: FIFOBuffer
  rx_fifo :: FIFOBuffer
  tx_fifo :: FIFOBuffer
  iir_x0 :: int16_t
  iir_x1 :: int16_t
  iir_y0 :: int16_t
  iir_y1 :: int16_t
  sampled_bits :: uint8_t
  curr_phase :: int8_t
  found_bits :: uint8_t
  sending :: bool
  status :: int
  hdlc :: Hdlc
  preamble_len :: uint16_t
  trailer_len :: uint16_t
  dac_irq :: bool

subsection \<open>The HDLC deframer\<close>

text \<open>
  \<open>hdlcParse\<close> returns the source's \<^verbatim>\<open>ret\<close> with the updated deframer state and queue.
  \<open>hdlc_escape\<close> is the block of lines 110 to 121 (the escape prefix of a reserved byte)
  and \<open>hdlc_store\<close> the block of lines 123 to 129 (the byte itself); each passes on the
  \<^verbatim>\<open>ret\<close> it was given unless its push is refused.
\<close>

definition hdlc_escape :: "bool \<times> Hdlc \<times> FIFOBuffer \<Rightarrow> bool \<times> Hdlc \<times> FIFOBuffer" where
  "hdlc_escape = (\<lambda>(ret, hdlc, fifo).
     if currchar hdlc = HDLC_FLAG \<or> currchar hdlc = HDLC_RESET \<or> currchar hdlc = AX25_ESC
     then (if \<not> fifo_isfull fifo then (ret, hdlc, fifo_push fifo AX25_ESC)
           else (False, hdlc\<lparr>rxstart := False\<rparr>, fifo))
     else (ret, hdlc, fifo))"

definition hdlc_store :: "bool \<times> Hdlc \<times> FIFOBuffer \<Rightarrow> bool \<times> Hdlc \<times> FIFOBuffer" where
  "hdlc_store = (\<lambda>(ret, hdlc, fifo).
     if \<not> fifo_isfull fifo then (ret, hdlc, fifo_push fifo (currchar hdlc))
     else (False, hdlc\<lparr>rxstart := False\<rparr>, fifo))"

definition hdlcParse :: "Hdlc \<Rightarrow> bool \<Rightarrow> FIFOBuffer \<Rightarrow> bool \<times> Hdlc \<times> FIFOBuffer" where
  "hdlcParse hdlc0 bitval fifo =
     (let hdlc = hdlc0\<lparr>demod_bits := push_bit 1 (demod_bits hdlc0)\<rparr>;
          hdlc = hdlc\<lparr>demod_bits := demod_bits hdlc OR (if bitval then 1 else 0)\<rparr>
      in
      if demod_bits hdlc = HDLC_FLAG then
        (if \<not> fifo_isfull fifo
         then (True, hdlc\<lparr>rxstart := True, currchar := 0, bit_idx := 0\<rparr>,
               fifo_push fifo HDLC_FLAG)
         else (False, hdlc\<lparr>rxstart := False, currchar := 0, bit_idx := 0\<rparr>, fifo))
      else if demod_bits hdlc AND HDLC_RESET = HDLC_RESET then
        (True, hdlc\<lparr>rxstart := False\<rparr>, fifo)
      else if \<not> rxstart hdlc then (True, hdlc, fifo)
      else if demod_bits hdlc AND 0x3f = 0x3e then (True, hdlc, fifo)
      else
        (let hdlc = (if demod_bits hdlc AND 0x01 \<noteq> 0
                     then hdlc\<lparr>currchar := currchar hdlc OR 0x80\<rparr> else hdlc);
             hdlc = hdlc\<lparr>bit_idx := bit_idx hdlc + 1\<rparr>
         in
         if bit_idx hdlc \<ge> 8 then
           (case hdlc_store (hdlc_escape (True, hdlc, fifo)) of
              (ret, hdlc, fifo) \<Rightarrow> (ret, hdlc\<lparr>currchar := 0, bit_idx := 0\<rparr>, fifo))
         else (True, hdlc\<lparr>currchar := drop_bit 1 (currchar hdlc)\<rparr>, fifo)))"

subsection \<open>The ADC callback\<close>

text \<open>
  \<open>iir_filter\<close> is the filter update of lines 182 to 199, selected by
  \<^verbatim>\<open>CONFIG_AFSK_FILTER\<close>; \<^verbatim>\<open>>>\<close> on a signed tap is the arithmetic shift.
\<close>

definition iir_filter :: "afsk_filter \<Rightarrow> int16_t \<Rightarrow> int16_t \<Rightarrow> int16_t \<Rightarrow> int16_t" where
  "iir_filter kind x0 x1 y0 =
     (case kind of
        AFSK_BUTTERWORTH \<Rightarrow>
          x0 + x1 + signed_drop_bit 1 y0 + signed_drop_bit 3 y0 + signed_drop_bit 5 y0
      | AFSK_CHEBYSHEV \<Rightarrow> x0 + x1 + signed_drop_bit 1 y0)"

text \<open>
  \<open>phase_sync\<close> is lines 209 to 216: the nudge on an edge and the advance by
  \<^verbatim>\<open>PHASE_BIT\<close>. \<open>majority\<close> is the vote of lines 233 to 239 on the last three sampled
  bits.
\<close>

definition phase_sync :: "uint8_t \<Rightarrow> int8_t \<Rightarrow> int8_t" where
  "phase_sync bits phase =
     (let phase = (if EDGE_FOUND bits
                   then (if sint phase < PHASE_THRES then phase + of_int PHASE_INC
                         else phase - of_int PHASE_INC)
                   else phase)
      in phase + of_int PHASE_BIT)"

definition majority :: "uint8_t \<Rightarrow> bool" where
  "majority sampled =
     (let bits = sampled AND 0x07
      in bits = 0x07 \<or> bits = 0x06 \<or> bits = 0x05 \<or> bits = 0x03)"

text \<open>
  The callback in two parts. \<open>adc_demod\<close> is lines 168 to 239: the discriminator, the
  filter, the slicer, the phase sync and, when \<open>curr_phase\<close> reaches \<^verbatim>\<open>PHASE_MAX\<close>, the
  decision of one symbol; its boolean tells whether a symbol was decided. The
  assignments of the source are the bindings \<open>x0\<close>, \<open>x1\<close>, \<open>y0\<close>, \<open>y1\<close>, \<open>bits\<close>,
  \<open>phase\<close> and \<open>found\<close>, in the source's order, stored into the context together. It pops the
  delay line without a test; \<open>None\<close> is the pop of an empty delay line, which
  \<open>afsk_init\<close> and the pop-then-push of every call exclude. In line 221 the operand of
  \<^verbatim>\<open>%\<close> is at least \<^verbatim>\<open>PHASE_MAX\<close>, where C's remainder is \<open>mod\<close>. \<open>adc_deframe\<close> is
  lines 245 and 246: the call of the deframer with the NRZI-decoded bit, and the overrun
  bit when it fails.
\<close>

definition adc_demod :: "afsk_config \<Rightarrow> Afsk \<Rightarrow> int8_t \<Rightarrow> (bool \<times> Afsk) option" where
  "adc_demod cfg af0 curr_sample =
     (case fifo_pop (delay_fifo af0) of
        None \<Rightarrow> None
      | Some (delayed, dfifo) \<Rightarrow>
          (let x0 = iir_x1 af0;
               x1 = of_int (drop_bit 2 (sint delayed * sint curr_sample));
               y0 = iir_y1 af0;
               y1 = iir_filter (CONFIG_AFSK_FILTER cfg) x0 x1 y0;
               bits = push_bit 1 (sampled_bits af0) OR (if 0 < sint y1 then 1 else 0);
               phase = phase_sync bits (curr_phase af0);
               af = af0\<lparr>iir_x0 := x0, iir_x1 := x1, iir_y0 := y0, iir_y1 := y1,
                        sampled_bits := bits,
                        delay_fifo := fifo_push dfifo curr_sample,
                        curr_phase := phase\<rparr>
           in
           if sint phase \<ge> PHASE_MAX then
             (let found = push_bit 1 (found_bits af0);
                  found = (if majority bits then found OR 1 else found)
              in Some (True, af\<lparr>curr_phase := of_int (sint phase mod PHASE_MAX),
                                found_bits := found\<rparr>))
           else Some (False, af)))"

definition adc_deframe :: "Afsk \<Rightarrow> Afsk" where
  "adc_deframe af0 =
     (case hdlcParse (hdlc af0) (\<not> EDGE_FOUND (found_bits af0)) (rx_fifo af0) of
        (ret, h, rx) \<Rightarrow>
          (let af = af0\<lparr>hdlc := h, rx_fifo := rx\<rparr>
           in if \<not> ret then af\<lparr>status := status af OR AFSK_RXFIFO_OVERRUN\<rparr> else af))"

definition afsk_adc_isr :: "afsk_config \<Rightarrow> Afsk \<Rightarrow> int8_t \<Rightarrow> Afsk option" where
  "afsk_adc_isr cfg af curr_sample =
     (case adc_demod cfg af curr_sample of
        None \<Rightarrow> None
      | Some (decided, af') \<Rightarrow> Some (if decided then adc_deframe af' else af'))"

subsection \<open>The transmit modulator\<close>

definition afsk_txStart :: "afsk_config \<Rightarrow> Afsk \<Rightarrow> Afsk" where
  "afsk_txStart cfg af0 =
     (let af = (if \<not> sending af0
                then af0\<lparr>phase_inc := MARK_INC,
                         phase_acc := 0,
                         stuff_cnt := 0,
                         sending := True,
                         preamble_len :=
                           of_nat (DIV_ROUND (CONFIG_AFSK_PREAMBLE_LEN cfg * BITRATE) 8000),
                         dac_irq := True\<rparr>
                else af0)
      in af\<lparr>trailer_len := of_nat (DIV_ROUND (CONFIG_AFSK_TRAILER_LEN cfg * BITRATE) 8000)\<rparr>)"

text \<open>
  The DAC callback in its three parts. \<open>dac_new_char\<close> is lines 289 to 345, run when a
  byte has been sent out: \<open>TxStop\<close> is one of its two \<^verbatim>\<open>return 0\<close>, \<open>TxNext\<close> the context
  with the next byte in \<open>curr_out\<close>; each pop stands behind the source's test of
  \<open>fifo_isempty\<close>. \<open>dac_emit_bit\<close> is lines 348 to 385, the bit of one symbol, and
  \<open>dac_sample\<close> lines 388 to 394, the DDS step of every sample.
\<close>

datatype tx_fetch = TxStop Afsk | TxNext Afsk

definition dac_stop :: "Afsk \<Rightarrow> Afsk" where
  "dac_stop af = af\<lparr>dac_irq := False, sending := False\<rparr>"

definition dac_new_char :: "Afsk \<Rightarrow> tx_fetch option" where
  "dac_new_char af0 =
     (if fifo_isempty (tx_fifo af0) \<and> trailer_len af0 = 0 then Some (TxStop (dac_stop af0))
      else
        (let af = (if \<not> bit_stuff af0 then af0\<lparr>stuff_cnt := 0\<rparr> else af0);
             af = af\<lparr>bit_stuff := True\<rparr>;
             fetched =
               (if preamble_len af = 0 then
                  (if fifo_isempty (tx_fifo af)
                   then Some (af\<lparr>trailer_len := trailer_len af - 1, curr_out := HDLC_FLAG\<rparr>)
                   else (case fifo_pop (tx_fifo af) of
                           None \<Rightarrow> None
                         | Some (c, tx) \<Rightarrow> Some (af\<lparr>curr_out := c, tx_fifo := tx\<rparr>)))
                else Some (af\<lparr>preamble_len := preamble_len af - 1, curr_out := HDLC_FLAG\<rparr>))
         in
         case fetched of
           None \<Rightarrow> None
         | Some af \<Rightarrow>
             if curr_out af = AX25_ESC then
               (if fifo_isempty (tx_fifo af) then Some (TxStop (dac_stop af))
                else (case fifo_pop (tx_fifo af) of
                        None \<Rightarrow> None
                      | Some (c, tx) \<Rightarrow>
                          Some (TxNext (af\<lparr>curr_out := c, tx_fifo := tx, tx_bit := 0x01\<rparr>))))
             else if curr_out af = HDLC_FLAG \<or> curr_out af = HDLC_RESET then
               Some (TxNext (af\<lparr>bit_stuff := False, tx_bit := 0x01\<rparr>))
             else Some (TxNext (af\<lparr>tx_bit := 0x01\<rparr>))))"

definition dac_emit_bit :: "Afsk \<Rightarrow> Afsk" where
  "dac_emit_bit af0 =
     (let af =
        (if bit_stuff af0 \<and> stuff_cnt af0 \<ge> BIT_STUFF_LEN then
           af0\<lparr>stuff_cnt := 0, phase_inc := SWITCH_TONE (phase_inc af0)\<rparr>
         else
           (let af = (if curr_out af0 AND tx_bit af0 \<noteq> 0
                      then af0\<lparr>stuff_cnt := stuff_cnt af0 + 1\<rparr>
                      else af0\<lparr>stuff_cnt := 0, phase_inc := SWITCH_TONE (phase_inc af0)\<rparr>)
            in af\<lparr>tx_bit := push_bit 1 (tx_bit af)\<rparr>))
      in af\<lparr>sample_count := DAC_SAMPLESPERBIT\<rparr>)"

definition dac_sample :: "Afsk \<Rightarrow> uint8_t \<times> Afsk" where
  "dac_sample af0 =
     (let af = af0\<lparr>phase_acc := phase_acc af0 + phase_inc af0\<rparr>;
          af = af\<lparr>phase_acc := phase_acc af mod SIN_LEN\<rparr>;
          af = af\<lparr>sample_count := sample_count af - 1\<rparr>
      in (sinSample (phase_acc af), af))"

definition afsk_dac_isr :: "Afsk \<Rightarrow> (uint8_t \<times> Afsk) option" where
  "afsk_dac_isr af =
     (if sample_count af = 0 then
        (if tx_bit af = 0 then
           (case dac_new_char af of
              None \<Rightarrow> None
            | Some (TxStop af') \<Rightarrow> Some (0, af')
            | Some (TxNext af') \<Rightarrow> Some (dac_sample (dac_emit_bit af')))
         else Some (dac_sample (dac_emit_bit af)))
      else Some (dac_sample af))"

subsection \<open>Initialisation and the write path\<close>

text \<open>
  \<open>afsk_init\<close> clears the context, fills the delay line with
  \<^verbatim>\<open>SAMPLESPERBIT / 2\<close> zeros and seeds the tone. \<open>afsk_write\<close> is the loop of lines 433
  to 440 run with no DAC callback in between: on a full queue the source spins until
  the callback makes room, which is \<open>None\<close> here.
\<close>

definition afsk_init :: "afsk_config \<Rightarrow> Afsk" where
  "afsk_init cfg =
     \<lparr>sample_count = 0, curr_out = 0, tx_bit = 0, bit_stuff = False, stuff_cnt = 0,
      phase_acc = 0, phase_inc = MARK_INC,
      delay_fifo = (fifo_init (SAMPLESPERBIT div 2))\<lparr>items := replicate (SAMPLESPERBIT div 2) 0\<rparr>,
      rx_fifo = fifo_init (CONFIG_AFSK_RX_BUFLEN cfg),
      tx_fifo = fifo_init (CONFIG_AFSK_TX_BUFLEN cfg),
      iir_x0 = 0, iir_x1 = 0, iir_y0 = 0, iir_y1 = 0,
      sampled_bits = 0, curr_phase = 0, found_bits = 0,
      sending = False, status = 0,
      hdlc = \<lparr>demod_bits = 0, bit_idx = 0, currchar = 0, rxstart = False\<rparr>,
      preamble_len = 0, trailer_len = 0, dac_irq = False\<rparr>"

fun afsk_write :: "afsk_config \<Rightarrow> Afsk \<Rightarrow> uint8_t list \<Rightarrow> Afsk option" where
  "afsk_write cfg af [] = Some af"
| "afsk_write cfg af (c # cs) =
     (if fifo_isfull (tx_fifo af) then None
      else afsk_write cfg (afsk_txStart cfg (af\<lparr>tx_fifo := fifo_push (tx_fifo af) c\<rparr>)) cs)"

subsection \<open>Running the callbacks\<close>

text \<open>
  What a receiver sees of one symbol: the modulator either holds \<open>tx_bit\<close> back (a
  stuffed zero; after a fetch the mask then still is \<open>0x01\<close>) or sends the data bit,
  whose NRZI value is read off the tone: logical 1 keeps \<open>phase_inc\<close>, logical 0
  changes it.
\<close>

datatype tx_symbol = DataBit bool | StuffedZero

definition observe_symbol :: "Afsk \<Rightarrow> Afsk \<Rightarrow> tx_symbol" where
  "observe_symbol af af' =
     (if tx_bit af' = (if tx_bit af = 0 then 0x01 else tx_bit af) then StuffedZero
      else DataBit (phase_inc af' = phase_inc af))"

text \<open>
  \<open>dac_run n af\<close> calls the DAC callback up to \<open>n\<close> times, as the DAC driver does while
  the interrupt runs, and stops at the call that clears \<open>sending\<close>. It returns the
  symbols of the calls that began a symbol (\<open>sample_count = 0\<close>) and the last context.
\<close>

fun dac_run :: "nat \<Rightarrow> Afsk \<Rightarrow> (tx_symbol list \<times> Afsk) option" where
  "dac_run 0 af = Some ([], af)"
| "dac_run (Suc n) af =
     (case afsk_dac_isr af of
        None \<Rightarrow> None
      | Some (out, af') \<Rightarrow>
          if \<not> sending af' then Some ([], af')
          else (case dac_run n af' of
                  None \<Rightarrow> None
                | Some (syms, af'') \<Rightarrow>
                    Some ((if sample_count af = 0 then [observe_symbol af af'] else []) @ syms,
                          af'')))"

text \<open>
  \<open>adc_run cfg af samples\<close> calls the ADC callback once for each sample, in order.
\<close>

fun adc_run :: "afsk_config \<Rightarrow> Afsk \<Rightarrow> int8_t list \<Rightarrow> Afsk option" where
  "adc_run cfg af [] = Some af"
| "adc_run cfg af (s # ss) =
     (case afsk_adc_isr cfg af s of None \<Rightarrow> None | Some af' \<Rightarrow> adc_run cfg af' ss)"

text \<open>
  The bytes one call of the deframer owes the RX queue, read off the deframer state and
  the incoming bit alone: the flag marker when the flag pattern arrives; the completed
  byte, behind an escape prefix when it is a reserved value, when the eighth data bit of
  a frame arrives; nothing at a reset pattern, outside a frame, at a stuffed bit or
  before the eighth bit.
\<close>

definition hdlc_due :: "Hdlc \<Rightarrow> bool \<Rightarrow> uint8_t list" where
  "hdlc_due h bitval =
     (let d = push_bit 1 (demod_bits h) OR (if bitval then 1 else 0);
          c = (if bitval then currchar h OR 0x80 else currchar h)
      in if d = HDLC_FLAG then [HDLC_FLAG]
         else if d AND HDLC_RESET = HDLC_RESET \<or> \<not> rxstart h \<or> d AND 0x3f = 0x3e
                 \<or> \<not> 8 \<le> bit_idx h + 1 then []
         else if c = HDLC_FLAG \<or> c = HDLC_RESET \<or> c = AX25_ESC then [AX25_ESC, c]
         else [c])"

text \<open>
  The contexts the modem reaches from \<open>afsk_init\<close>: by the two callbacks, which may
  run between any two steps of the foreground, by the push of a byte into the TX queue
  once it has room (line 438), by \<open>afsk_txStart\<close> (line 439), by the read of a byte
  (line 422) and by \<open>afsk_clearerr\<close>.
\<close>

inductive reachable :: "afsk_config \<Rightarrow> Afsk \<Rightarrow> bool" for cfg :: afsk_config where
  reach_init: "reachable cfg (afsk_init cfg)"
| reach_adc: "reachable cfg af \<Longrightarrow> afsk_adc_isr cfg af s = Some af' \<Longrightarrow> reachable cfg af'"
| reach_dac: "reachable cfg af \<Longrightarrow> afsk_dac_isr af = Some (out, af') \<Longrightarrow> reachable cfg af'"
| reach_push: "reachable cfg af \<Longrightarrow> \<not> fifo_isfull (tx_fifo af) \<Longrightarrow>
     reachable cfg (af\<lparr>tx_fifo := fifo_push (tx_fifo af) c\<rparr>)"
| reach_txStart: "reachable cfg af \<Longrightarrow> reachable cfg (afsk_txStart cfg af)"
| reach_read: "reachable cfg af \<Longrightarrow> fifo_pop (rx_fifo af) = Some (c, rx) \<Longrightarrow>
     reachable cfg (af\<lparr>rx_fifo := rx\<rparr>)"
| reach_clearerr: "reachable cfg af \<Longrightarrow> reachable cfg (af\<lparr>status := 0\<rparr>)"

text \<open>A build for the scenarios: preamble and trailer of 7 ms, one flag each.\<close>

definition cfg0 :: afsk_config where
  "cfg0 = \<lparr>CONFIG_AFSK_PREAMBLE_LEN = 7, CONFIG_AFSK_TRAILER_LEN = 7,
           CONFIG_AFSK_FILTER = AFSK_BUTTERWORTH, CONFIG_AFSK_RX_BUFLEN = 8,
           CONFIG_AFSK_TX_BUFLEN = 8\<rparr>"

text \<open>
  A receiving context one sample before a symbol decision, with deframer state \<open>h\<close> and
  RX queue \<open>q\<close>: a zero sample then decides a symbol whose tone differs from the last
  one, the logical bit 0.
\<close>

definition rx_scenario :: "Hdlc \<Rightarrow> FIFOBuffer \<Rightarrow> Afsk" where
  "rx_scenario h q = (afsk_init cfg0)\<lparr>curr_phase := 56, found_bits := 1, hdlc := h, rx_fifo := q\<rparr>"

subsection \<open>Notions of the theorems\<close>

text \<open>
  The filter update as the specification writes it, over the integers: \<open>xn\<close> is
  \<open>x[n]\<close>, \<open>xn1\<close> is \<open>x[n-1]\<close>, \<open>yn1\<close> is \<open>y[n-1]\<close>, and the arithmetic shift
  \<^verbatim>\<open>y >> k\<close> is the division by \<open>2 ^ k\<close> rounded down.
\<close>

definition iir_as_specified :: "afsk_filter \<Rightarrow> int \<Rightarrow> int \<Rightarrow> int \<Rightarrow> int" where
  "iir_as_specified kind xn xn1 yn1 =
     (case kind of
        AFSK_BUTTERWORTH \<Rightarrow> xn + xn1 + yn1 div 2 ^ 1 + yn1 div 2 ^ 3 + yn1 div 2 ^ 5
      | AFSK_CHEBYSHEV \<Rightarrow> xn + xn1 + yn1 div 2 ^ 1)"

text \<open>
  The fields only the receive side writes and the fields only the transmit side writes;
  \<open>iir_in_range\<close> is the range the filter taps stay in, with a delay line that holds a
  sample.
\<close>

definition rx_part where
  "rx_part af = (iir_x0 af, iir_x1 af, iir_y0 af, iir_y1 af, sampled_bits af, curr_phase af,
                 found_bits af, delay_fifo af, hdlc af)"


definition iir_in_range :: "Afsk \<Rightarrow> bool" where
  "iir_in_range af =
     (\<bar>sint (iir_x1 af)\<bar> \<le> 4096 \<and> \<bar>sint (iir_y1 af)\<bar> \<le> 24000
      \<and> \<not> fifo_isempty (delay_fifo af))"





section \<open>The sine sample generator: theorems\<close>

lemma sinIndex_unat:
  "unat (sinIndex i) =
     (if unat i mod 256 \<ge> 128 then 255 - unat i mod 256 else unat i mod 256)"
proof -
  have m: "unat (i mod 256) = unat i mod 256"
    by (simp add: unat_mod)
  have lt: "unat i mod 256 < 256" by simp
  show ?thesis
  proof (cases "unat i mod 256 \<ge> 128")
    case True
    then have ge: "(128 :: uint16_t) \<le> i mod 256"
      by (simp add: word_le_nat_alt m)
    have le: "i mod 256 \<le> (255 :: uint16_t)"
      using lt by (simp add: word_le_nat_alt m)
    have "unat (255 - i mod 256) = 255 - unat i mod 256"
      using le by (simp add: unat_sub m)
    moreover have "(256 :: uint16_t) - i mod 256 - 1 = 255 - i mod 256" by simp
    ultimately show ?thesis using True ge
      by (simp add: sinIndex_def SIN_LEN_def Let_def)
  next
    case False
    then have "\<not> (128 :: uint16_t) \<le> i mod 256"
      by (simp add: word_le_nat_alt m)
    then show ?thesis using False
      by (simp add: sinIndex_def SIN_LEN_def Let_def m)
  qed
qed

lemma sinIndex_in_table: "unat (sinIndex i) < length sin_table"
proof -
  have "unat (sinIndex i) < 128"
    unfolding sinIndex_unat by (cases "unat i mod 256 \<ge> 128") auto
  then show ?thesis by (simp add: sin_table_def)
qed

text \<open>
  C1, as the code has it. For every phase index \<open>i < 512\<close> the generator folds \<open>i\<close>
  to \<open>i mod 256\<close>; when the folded value is at least 128 it reads the quarter-wave table
  at \<open>256 - folded - 1 = 255 - folded\<close>, otherwise at the folded value; the index is
  inside the 128-entry table; and for \<open>i \<ge> 256\<close> the result is 255 minus the sample
  read.
\<close>

theorem C1_sinSample_quadrants:
  assumes "i < SIN_LEN"
  shows "unat (sinIndex i) =
           (let folded = unat i mod 256
            in if folded \<ge> 128 then 256 - folded - 1 else folded)
         \<and> unat (sinIndex i) < 128
         \<and> length sin_table = 128
         \<and> unat (sinSample i) =
             (if unat i \<ge> 256 then 255 - unat (sin_table ! unat (sinIndex i))
              else unat (sin_table ! unat (sinIndex i)))"
proof -
  have a: "unat (sinIndex i) =
             (let folded = unat i mod 256
              in if folded \<ge> 128 then 256 - folded - 1 else folded)"
    by (simp add: sinIndex_unat Let_def)
  have b: "unat (sinIndex i) < 128"
    unfolding sinIndex_unat by (cases "unat i mod 256 \<ge> 128") auto
  have c: "length sin_table = 128" by (simp add: sin_table_def)
  have hi: "(256 \<le> i) = (256 \<le> unat i)"
    by (simp add: word_le_nat_alt)
  have s: "unat (255 - w) = 255 - unat w" for w :: uint8_t
  proof -
    have "unat w < 2 ^ 8" using unsigned_less [of w] by simp
    then have "w \<le> 255" by (simp add: word_le_nat_alt)
    then show ?thesis by (simp add: unat_sub)
  qed
  have d: "unat (sinSample i) =
             (if unat i \<ge> 256 then 255 - unat (sin_table ! unat (sinIndex i))
              else unat (sin_table ! unat (sinIndex i)))"
    by (simp add: sinSample_def SIN_LEN_def Let_def hi s)
  from a b c d show ?thesis by blast
qed

theorem C1_sinSample_quadrants_witness:
  "(300 :: uint16_t) < SIN_LEN \<and> unat (sinIndex 300) = 44 \<and> sin_table ! 44 = 193
   \<and> unat (sinSample 300) = 62"
proof -
  have h: "(300 :: uint16_t) < SIN_LEN" by (simp add: SIN_LEN_def)
  have v: "unat (sinIndex 300) = 44" "sin_table ! 44 = 193"
    by (simp_all add: sinIndex_def SIN_LEN_def sin_table_def)
  from C1_sinSample_quadrants [OF h]
  have "unat (sinSample 300) = 255 - unat (sin_table ! unat (sinIndex 300))" by simp
  with h v show ?thesis by simp
qed

text \<open>
  C1 as stated fails: at phase 134 the folded value is 134, the specified index
  \<open>255 - 134 - 1\<close> is 120, where the table holds 254; the code reads index 121 and
  returns 255.
\<close>

theorem C1_index_counterexample:
  "sinIndex_as_specified 134 = 120 \<and> sin_table ! 120 = 254
   \<and> unat (sinIndex 134) = 121 \<and> sinSample 134 = 255"
  by (simp add: sinIndex_as_specified_def sinIndex_def sinSample_def SIN_LEN_def
      sin_table_def Let_def)


section \<open>Evaluation of the constants and of the initial context\<close>

lemma consts_simps: "MARK_INC = 64" "SPACE_INC = 117" "DAC_SAMPLESPERBIT = 8"
  by (simp_all add: MARK_INC_def SPACE_INC_def DAC_SAMPLESPERBIT_def DIV_ROUND_def SIN_LEN_def
      MARK_FREQ_def SPACE_FREQ_def CONFIG_AFSK_DAC_SAMPLERATE_def BITRATE_def)

lemma phase_consts: "PHASE_MAX = 64" "PHASE_BIT = 8" "PHASE_INC = 1" "PHASE_THRES = 32"
  by (simp_all add: PHASE_MAX_def PHASE_BIT_def PHASE_INC_def PHASE_THRES_def SAMPLESPERBIT_def)

lemma r4: "replicate 4 x = [x, x, x, x]"
  by (simp add: numeral_eq_Suc)

lemma afsk_init_cfg0:
  "afsk_init cfg0 =
     \<lparr>sample_count = 0, curr_out = 0, tx_bit = 0, bit_stuff = False, stuff_cnt = 0,
      phase_acc = 0, phase_inc = 64,
      delay_fifo = \<lparr>items = [0, 0, 0, 0], capacity = 4\<rparr>,
      rx_fifo = \<lparr>items = [], capacity = 8\<rparr>,
      tx_fifo = \<lparr>items = [], capacity = 8\<rparr>,
      iir_x0 = 0, iir_x1 = 0, iir_y0 = 0, iir_y1 = 0,
      sampled_bits = 0, curr_phase = 0, found_bits = 0,
      sending = False, status = 0,
      hdlc = \<lparr>demod_bits = 0, bit_idx = 0, currchar = 0, rxstart = False\<rparr>,
      preamble_len = 0, trailer_len = 0, dac_irq = False\<rparr>"
  by (simp add: afsk_init_def cfg0_def fifo_init_def SAMPLESPERBIT_def consts_simps r4)


section \<open>The deframer: theorems\<close>

lemma hdlc_escape_store:
  "hdlc_store (hdlc_escape (True, h, q)) =
     (if currchar h = HDLC_FLAG \<or> currchar h = HDLC_RESET \<or> currchar h = AX25_ESC then
        (if capacity q \<le> length (items q) then (False, h\<lparr>rxstart := False\<rparr>, q)
         else if capacity q \<le> length (items q) + 1
              then (False, h\<lparr>rxstart := False\<rparr>, q\<lparr>items := items q @ [AX25_ESC]\<rparr>)
         else (True, h, q\<lparr>items := items q @ [AX25_ESC, currchar h]\<rparr>))
      else
        (if capacity q \<le> length (items q) then (False, h\<lparr>rxstart := False\<rparr>, q)
         else (True, h, q\<lparr>items := items q @ [currchar h]\<rparr>)))"
  by (simp add: hdlc_store_def hdlc_escape_def fifo_isfull_def fifo_push_def)

lemma demod_bit0: "(push_bit 1 (w :: uint8_t) OR (if b then 1 else 0)) AND 0x01 \<noteq> 0 \<longleftrightarrow> b"
proof (cases b)
  case True
  have "odd (push_bit 1 w OR (1 :: uint8_t))" by (simp add: even_or_iff)
  then show ?thesis using True by (simp add: and_one_eq mod_2_eq_odd)
next
  case False
  have "even (push_bit 1 w :: uint8_t)" by (simp add: push_bit_eq_mult)
  then show ?thesis using False by (simp add: and_one_eq mod_2_eq_odd)
qed

lemma take_two:
  "take n [x, y] = (if n = 0 then [] else if n = Suc 0 then [x] else [x, y])"
  by (cases n; simp)

lemma take_one: "take n [x] = (if n = 0 then [] else [x])"
  by (cases n) simp_all

lemma hdlcParse_complete:
  assumes "rxstart h"
    and "d = push_bit 1 (demod_bits h) OR (if b then 1 else 0)"
    and "d \<noteq> HDLC_FLAG" "d AND HDLC_RESET \<noteq> HDLC_RESET" "d AND 0x3f \<noteq> 0x3e"
    and "bit_idx h + 1 \<ge> 8"
    and "c = (if b then currchar h OR 0x80 else currchar h)"
  shows "hdlcParse h b q =
           (case hdlc_store (hdlc_escape (True, h\<lparr>demod_bits := d, currchar := c, bit_idx := bit_idx h + 1\<rparr>, q)) of
              (ret, h', q') \<Rightarrow> (ret, h'\<lparr>currchar := 0, bit_idx := 0\<rparr>, q'))"
  using assms demod_bit0 [of "demod_bits h" b]
  by (simp add: hdlcParse_def Let_def)

text \<open>
  C5. When the deframer completes a byte \<open>c\<close> (the call reaches line 108 with the eighth
  bit), the queue receives, as far as it has room, \<open>AX25_ESC\<close> and then \<open>c\<close> when \<open>c\<close> is
  \<open>HDLC_FLAG\<close>, \<open>HDLC_RESET\<close> or \<open>AX25_ESC\<close>, and \<open>c\<close> alone otherwise: a reserved byte
  is never pushed without the escape right before it, another byte never with one.
\<close>

theorem C5_escape_prefix:
  assumes "rxstart h"
    and "d = push_bit 1 (demod_bits h) OR (if b then 1 else 0)"
    and "d \<noteq> HDLC_FLAG" "d AND HDLC_RESET \<noteq> HDLC_RESET" "d AND 0x3f \<noteq> 0x3e"
    and "bit_idx h + 1 \<ge> 8"
    and "c = (if b then currchar h OR 0x80 else currchar h)"
    and "hdlcParse h b q = (ret, h', q')"
  shows "items q' = items q @ take (capacity q - length (items q))
                       (if c = HDLC_FLAG \<or> c = HDLC_RESET \<or> c = AX25_ESC
                        then [AX25_ESC, c] else [c])
         \<and> (c = HDLC_FLAG \<or> c = HDLC_RESET \<or> c = AX25_ESC \<longrightarrow>
              length (items q) + 2 \<le> capacity q \<longrightarrow> items q' = items q @ [AX25_ESC, c])
         \<and> (\<not> (c = HDLC_FLAG \<or> c = HDLC_RESET \<or> c = AX25_ESC) \<longrightarrow>
              length (items q) + 1 \<le> capacity q \<longrightarrow> items q' = items q @ [c])
         \<and> capacity q' = capacity q \<and> currchar h' = 0 \<and> bit_idx h' = 0"
proof -
  define H where "H = h\<lparr>demod_bits := d, currchar := c, bit_idx := bit_idx h + 1\<rparr>"
  have "hdlcParse h b q =
           (case hdlc_store (hdlc_escape (True, H, q)) of
              (ret, h', q') \<Rightarrow> (ret, h'\<lparr>currchar := 0, bit_idx := 0\<rparr>, q'))"
    unfolding H_def using assms(1-7) by (rule hdlcParse_complete)
  with assms(8) have q': "q' = snd (snd (hdlc_store (hdlc_escape (True, H, q))))"
    and h': "h' = (fst (snd (hdlc_store (hdlc_escape (True, H, q)))))\<lparr>currchar := 0, bit_idx := 0\<rparr>"
    by (simp_all split: prod.splits)
  have c: "currchar H = c" by (simp add: H_def)
  have "items q' = items q @ take (capacity q - length (items q))
                       (if c = HDLC_FLAG \<or> c = HDLC_RESET \<or> c = AX25_ESC
                        then [AX25_ESC, c] else [c])
         \<and> capacity q' = capacity q \<and> currchar h' = 0 \<and> bit_idx h' = 0"
    unfolding q' h' hdlc_escape_store c
    by (auto simp: take_two take_one)
  then show ?thesis
    by (auto simp: take_two take_one)
qed

theorem C5_escape_prefix_witness:
  "hdlcParse \<lparr>demod_bits = 0x6C, bit_idx = 7, currchar = 0x1B, rxstart = True\<rparr> False
     \<lparr>items = [0x7E], capacity = 8\<rparr>
   = (True, \<lparr>demod_bits = 0xD8, bit_idx = 0, currchar = 0, rxstart = True\<rparr>,
      \<lparr>items = [0x7E, 0x1B, 0x1B], capacity = 8\<rparr>)
   \<and> items \<lparr>items = [0x7E, 0x1B, 0x1B :: uint8_t], capacity = 8\<rparr>
       = items \<lparr>items = [0x7E :: uint8_t], capacity = 8\<rparr> @ [AX25_ESC, 0x1B]"
proof -
  let ?h = "\<lparr>demod_bits = 0x6C, bit_idx = 7, currchar = 0x1B, rxstart = True\<rparr>"
  let ?q = "\<lparr>items = [0x7E :: uint8_t], capacity = 8\<rparr>"
  have e: "hdlcParse ?h False ?q
           = (True, \<lparr>demod_bits = 0xD8, bit_idx = 0, currchar = 0, rxstart = True\<rparr>,
              \<lparr>items = [0x7E, 0x1B, 0x1B], capacity = 8\<rparr>)"
    by (simp add: hdlcParse_def hdlc_escape_def hdlc_store_def fifo_isfull_def fifo_push_def
        HDLC_FLAG_def HDLC_RESET_def AX25_ESC_def Let_def)
  have "items \<lparr>items = [0x7E, 0x1B, 0x1B :: uint8_t], capacity = 8\<rparr>
        = items ?q @ take (capacity ?q - length (items ?q))
           (if (0x1B :: uint8_t) = HDLC_FLAG \<or> (0x1B :: uint8_t) = HDLC_RESET \<or> (0x1B :: uint8_t) = AX25_ESC
            then [AX25_ESC, 0x1B] else [0x1B])"
    using C5_escape_prefix [of ?h "0xD8" False "0x1B" ?q, OF _ _ _ _ _ _ _ e]
    by (simp add: HDLC_FLAG_def HDLC_RESET_def AX25_ESC_def)
  with e show ?thesis by (simp add: AX25_ESC_def)
qed

lemma hdlcParse_due:
  assumes "hdlcParse h b q = (ret, h', q')"
  shows "q' = q\<lparr>items := items q @ take (capacity q - length (items q)) (hdlc_due h b)\<rparr>
       \<and> (ret \<longleftrightarrow> length (hdlc_due h b) \<le> capacity q - length (items q))
       \<and> (\<not> ret \<longrightarrow> \<not> rxstart h')"
proof -
  let ?d = "push_bit 1 (demod_bits h) OR (if b then 1 else 0)"
  let ?c = "if b then currchar h OR 0x80 else currchar h"
  consider (flag) "?d = HDLC_FLAG"
    | (none) "?d \<noteq> HDLC_FLAG"
        "?d AND HDLC_RESET = HDLC_RESET \<or> \<not> rxstart h \<or> ?d AND 0x3f = 0x3e \<or> \<not> 8 \<le> bit_idx h + 1"
    | (byte) "?d \<noteq> HDLC_FLAG" "?d AND HDLC_RESET \<noteq> HDLC_RESET" "rxstart h"
        "?d AND 0x3f \<noteq> 0x3e" "8 \<le> bit_idx h + 1"
    by blast
  then show ?thesis
  proof cases
    case flag
    then have due: "hdlc_due h b = [HDLC_FLAG]" by (simp add: hdlc_due_def Let_def)
    from flag assms show ?thesis unfolding due
      by (auto simp: hdlcParse_def Let_def fifo_isfull_def fifo_push_def take_one)
  next
    case none
    then have due: "hdlc_due h b = []" by (simp add: hdlc_due_def Let_def)
    from none assms show ?thesis unfolding due
      by (auto simp: hdlcParse_def Let_def split: if_splits)
  next
    case byte
    then have due: "hdlc_due h b =
        (if ?c = HDLC_FLAG \<or> ?c = HDLC_RESET \<or> ?c = AX25_ESC then [AX25_ESC, ?c] else [?c])"
      by (simp add: hdlc_due_def Let_def)
    define H where "H = h\<lparr>demod_bits := ?d, currchar := ?c, bit_idx := bit_idx h + 1\<rparr>"
    have "hdlcParse h b q =
           (case hdlc_store (hdlc_escape (True, H, q)) of
              (ret, h', q') \<Rightarrow> (ret, h'\<lparr>currchar := 0, bit_idx := 0\<rparr>, q'))"
      unfolding H_def using byte by (intro hdlcParse_complete) simp_all
    with assms have e: "(ret, h', q') =
           (case hdlc_store (hdlc_escape (True, H, q)) of
              (ret, h', q') \<Rightarrow> (ret, h'\<lparr>currchar := 0, bit_idx := 0\<rparr>, q'))" by simp
    have c: "currchar H = ?c" by (simp add: H_def)
    from e show ?thesis unfolding due hdlc_escape_store c
      by (auto simp: take_two take_one split: if_splits)
  qed
qed

lemma adc_demod_frame:
  assumes "adc_demod cfg af s = Some (d, af1)"
  shows "hdlc af1 = hdlc af \<and> rx_fifo af1 = rx_fifo af \<and> status af1 = status af"
  using assms by (auto simp: adc_demod_def Let_def split: option.splits if_splits)

lemma adc_deframe_frame:
  "curr_phase (adc_deframe a) = curr_phase a \<and> sampled_bits (adc_deframe a) = sampled_bits a
   \<and> found_bits (adc_deframe a) = found_bits a
   \<and> iir_x0 (adc_deframe a) = iir_x0 a \<and> iir_x1 (adc_deframe a) = iir_x1 a
   \<and> iir_y0 (adc_deframe a) = iir_y0 a \<and> iir_y1 (adc_deframe a) = iir_y1 a
   \<and> delay_fifo (adc_deframe a) = delay_fifo a"
  by (simp add: adc_deframe_def Let_def split: prod.splits)

lemma overrun_bit: "(x OR AFSK_RXFIFO_OVERRUN) AND AFSK_RXFIFO_OVERRUN = AFSK_RXFIFO_OVERRUN"
  by (auto simp: bit_eq_iff bit_simps)

lemma rx_scenario_demod:
  "adc_demod cfg0 (rx_scenario h q) 0 =
     Some (True, (rx_scenario h q)\<lparr>curr_phase := 0, found_bits := 2\<rparr>)"
  unfolding rx_scenario_def afsk_init_cfg0
  by (simp add: adc_demod_def fifo_pop_def fifo_push_def
      iir_filter_def cfg0_def phase_sync_def EDGE_FOUND_def BITS_DIFFER_def majority_def
      PHASE_MAX_def PHASE_BIT_def PHASE_INC_def PHASE_THRES_def SAMPLESPERBIT_def Let_def)

lemma edge2: "EDGE_FOUND 2"
  by (simp add: EDGE_FOUND_def BITS_DIFFER_def)

text \<open>
  C3. A call of the deframer puts the bytes it owes into the RX queue as far as the
  queue has room and returns true exactly when all of them fitted. When a byte does not
  fit (the flag marker on a full queue, or a completed byte on a full queue, be it a
  plain byte or a reserved one whose escape prefix comes first) the call returns false
  with \<open>rxstart\<close> cleared and the queue full. The ADC callback that decided the symbol
  leaves the queue as the deframer did, sets \<open>AFSK_RXFIFO_OVERRUN\<close> in \<open>status\<close> whenever a
  byte did not fit, and leaves \<open>status\<close> alone otherwise: no byte is dropped without the
  bit.
\<close>

theorem C3_overrun:
  "(\<forall>ret h' q'. hdlcParse h b q = (ret, h', q') \<longrightarrow>
       q' = q\<lparr>items := items q @ take (capacity q - length (items q)) (hdlc_due h b)\<rparr>
     \<and> (ret \<longleftrightarrow> length (hdlc_due h b) \<le> capacity q - length (items q))
     \<and> (\<not> ret \<longrightarrow> \<not> rxstart h' \<and> fifo_isfull q')
     \<and> (fifo_isfull q \<longrightarrow>
          push_bit 1 (demod_bits h) OR (if b then 1 else 0) = HDLC_FLAG \<longrightarrow>
            \<not> ret \<and> \<not> rxstart h' \<and> q' = q)
     \<and> (fifo_isfull q \<longrightarrow>
          push_bit 1 (demod_bits h) OR (if b then 1 else 0) \<noteq> HDLC_FLAG \<longrightarrow>
          (push_bit 1 (demod_bits h) OR (if b then 1 else 0)) AND HDLC_RESET \<noteq> HDLC_RESET \<longrightarrow>
          rxstart h \<longrightarrow>
          (push_bit 1 (demod_bits h) OR (if b then 1 else 0)) AND 0x3f \<noteq> 0x3e \<longrightarrow>
          8 \<le> bit_idx h + 1 \<longrightarrow>
            \<not> ret \<and> \<not> rxstart h' \<and> q' = q))
   \<and> (\<forall>decided af1 af'.
        adc_demod cfg af s = Some (decided, af1) \<longrightarrow> afsk_adc_isr cfg af s = Some af' \<longrightarrow>
          (let due = (if decided then hdlc_due (hdlc af) (\<not> EDGE_FOUND (found_bits af1)) else []);
               free = capacity (rx_fifo af) - length (items (rx_fifo af))
           in rx_fifo af' = (rx_fifo af)\<lparr>items := items (rx_fifo af) @ take free due\<rparr>
            \<and> (length due \<le> free \<longrightarrow> status af' = status af)
            \<and> (free < length due \<longrightarrow>
                 status af' = status af OR AFSK_RXFIFO_OVERRUN
               \<and> status af' AND AFSK_RXFIFO_OVERRUN = AFSK_RXFIFO_OVERRUN
               \<and> \<not> rxstart (hdlc af'))))"
proof (rule conjI; intro allI impI)
  fix ret h' q'
  assume a: "hdlcParse h b q = (ret, h', q')"
  note d = hdlcParse_due [OF a]
  let ?d = "push_bit 1 (demod_bits h) OR (if b then 1 else 0)"
  have flag: "hdlc_due h b = [HDLC_FLAG]" if "?d = HDLC_FLAG"
    using that by (simp add: hdlc_due_def Let_def)
  have byte: "hdlc_due h b \<noteq> []"
    if "?d \<noteq> HDLC_FLAG" "?d AND HDLC_RESET \<noteq> HDLC_RESET" "rxstart h" "?d AND 0x3f \<noteq> 0x3e"
      "8 \<le> bit_idx h + 1"
    using that by (simp add: hdlc_due_def Let_def)
  have full: "\<not> ret \<and> \<not> rxstart h' \<and> q' = q" if "fifo_isfull q" "hdlc_due h b \<noteq> []"
    using d that by (cases "hdlc_due h b") (auto simp: fifo_isfull_def)
  have nf: "\<not> rxstart h' \<and> fifo_isfull q'" if "\<not> ret"
    using d that by (auto simp: fifo_isfull_def)
  from d flag byte full nf
  show "q' = q\<lparr>items := items q @ take (capacity q - length (items q)) (hdlc_due h b)\<rparr>
     \<and> (ret \<longleftrightarrow> length (hdlc_due h b) \<le> capacity q - length (items q))
     \<and> (\<not> ret \<longrightarrow> \<not> rxstart h' \<and> fifo_isfull q')
     \<and> (fifo_isfull q \<longrightarrow> ?d = HDLC_FLAG \<longrightarrow> \<not> ret \<and> \<not> rxstart h' \<and> q' = q)
     \<and> (fifo_isfull q \<longrightarrow> ?d \<noteq> HDLC_FLAG \<longrightarrow> ?d AND HDLC_RESET \<noteq> HDLC_RESET \<longrightarrow>
          rxstart h \<longrightarrow> ?d AND 0x3f \<noteq> 0x3e \<longrightarrow> 8 \<le> bit_idx h + 1 \<longrightarrow>
            \<not> ret \<and> \<not> rxstart h' \<and> q' = q)"
    by (metis list.distinct(1))
next
  fix decided af1 af'
  assume dm: "adc_demod cfg af s = Some (decided, af1)"
    and isr: "afsk_adc_isr cfg af s = Some af'"
  from adc_demod_frame [OF dm]
  have fr: "hdlc af1 = hdlc af" "rx_fifo af1 = rx_fifo af" "status af1 = status af"
    by simp_all
  from dm isr have af': "af' = (if decided then adc_deframe af1 else af1)"
    by (simp add: afsk_adc_isr_def)
  let ?free = "capacity (rx_fifo af) - length (items (rx_fifo af))"
  show "let due = (if decided then hdlc_due (hdlc af) (\<not> EDGE_FOUND (found_bits af1)) else []);
            free = capacity (rx_fifo af) - length (items (rx_fifo af))
        in rx_fifo af' = (rx_fifo af)\<lparr>items := items (rx_fifo af) @ take free due\<rparr>
            \<and> (length due \<le> free \<longrightarrow> status af' = status af)
            \<and> (free < length due \<longrightarrow>
                 status af' = status af OR AFSK_RXFIFO_OVERRUN
               \<and> status af' AND AFSK_RXFIFO_OVERRUN = AFSK_RXFIFO_OVERRUN
               \<and> \<not> rxstart (hdlc af'))"
  proof (cases decided)
    case False
    with af' fr show ?thesis by (simp add: Let_def)
  next
    case True
    obtain ret h' q' where p: "hdlcParse (hdlc af) (\<not> EDGE_FOUND (found_bits af1)) (rx_fifo af) = (ret, h', q')"
      by (metis prod_cases3)
    note d = hdlcParse_due [OF p]
    have 1: "rx_fifo af' = q'" "hdlc af' = h'"
      "status af' = (if ret then status af else status af OR AFSK_RXFIFO_OVERRUN)"
      using af' True p fr by (simp_all add: adc_deframe_def Let_def)
    from d show ?thesis unfolding Let_def 1
      by (auto simp: True overrun_bit)
  qed
qed

theorem C3_overrun_witness:
  "hdlcParse \<lparr>demod_bits = 0x3F, bit_idx = 3, currchar = 5, rxstart = True\<rparr> False
      \<lparr>items = [0x10], capacity = 1\<rparr>
     = (False, \<lparr>demod_bits = 0x7E, bit_idx = 0, currchar = 0, rxstart = False\<rparr>,
        \<lparr>items = [0x10], capacity = 1\<rparr>)
   \<and> hdlcParse \<lparr>demod_bits = 0x41, bit_idx = 7, currchar = 0x41, rxstart = True\<rparr> False
      \<lparr>items = [0x10], capacity = 1\<rparr>
     = (False, \<lparr>demod_bits = 0x82, bit_idx = 0, currchar = 0, rxstart = False\<rparr>,
        \<lparr>items = [0x10], capacity = 1\<rparr>)
   \<and> hdlcParse \<lparr>demod_bits = 0x6C, bit_idx = 7, currchar = 0x1B, rxstart = True\<rparr> False
      \<lparr>items = [0x10], capacity = 1\<rparr>
     = (False, \<lparr>demod_bits = 0xD8, bit_idx = 0, currchar = 0, rxstart = False\<rparr>,
        \<lparr>items = [0x10], capacity = 1\<rparr>)
   \<and> (\<exists>af'. afsk_adc_isr cfg0
              (rx_scenario \<lparr>demod_bits = 0x41, bit_idx = 7, currchar = 0x41, rxstart = True\<rparr>
                 \<lparr>items = [0x10], capacity = 1\<rparr>) 0 = Some af'
          \<and> rx_fifo af' = \<lparr>items = [0x10], capacity = 1\<rparr>
          \<and> status af' AND AFSK_RXFIFO_OVERRUN = AFSK_RXFIFO_OVERRUN
          \<and> \<not> rxstart (hdlc af'))"
proof -
  let ?q = "\<lparr>items = [0x10 :: uint8_t], capacity = 1\<rparr>"
  let ?h1 = "\<lparr>demod_bits = 0x3F, bit_idx = 3, currchar = 5, rxstart = True\<rparr>"
  let ?h2 = "\<lparr>demod_bits = 0x41, bit_idx = 7, currchar = 0x41, rxstart = True\<rparr>"
  let ?h3 = "\<lparr>demod_bits = 0x6C, bit_idx = 7, currchar = 0x1B, rxstart = True\<rparr>"
  have full: "fifo_isfull ?q" by (simp add: fifo_isfull_def)
  have e: "h' = \<lparr>demod_bits = d, bit_idx = 0, currchar = 0, rxstart = False\<rparr>"
    if "rxstart h' = False" "demod_bits h' = d" "currchar h' = 0" "bit_idx h' = 0" for h' d
    using that by (cases h') simp
  obtain r1 a1 q1 where p1: "hdlcParse ?h1 False ?q = (r1, a1, q1)" by (metis prod_cases3)
  obtain r2 a2 q2 where p2: "hdlcParse ?h2 False ?q = (r2, a2, q2)" by (metis prod_cases3)
  obtain r3 a3 q3 where p3: "hdlcParse ?h3 False ?q = (r3, a3, q3)" by (metis prod_cases3)
  note t1 = C3_overrun [of ?h1 False ?q, THEN conjunct1, rule_format, OF p1]
  note t2 = C3_overrun [of ?h2 False ?q, THEN conjunct1, rule_format, OF p2]
  note t3 = C3_overrun [of ?h3 False ?q, THEN conjunct1, rule_format, OF p3]
  have c1: "\<not> r1 \<and> \<not> rxstart a1 \<and> q1 = ?q"
    by (rule t1 [THEN conjunct2, THEN conjunct2, THEN conjunct2, THEN conjunct1, rule_format,
          OF full]) (simp add: HDLC_FLAG_def)
  have c2: "\<not> r2 \<and> \<not> rxstart a2 \<and> q2 = ?q"
    by (rule t2 [THEN conjunct2, THEN conjunct2, THEN conjunct2, THEN conjunct2, rule_format,
          OF full]) (simp_all add: HDLC_FLAG_def HDLC_RESET_def)
  have c3: "\<not> r3 \<and> \<not> rxstart a3 \<and> q3 = ?q"
    by (rule t3 [THEN conjunct2, THEN conjunct2, THEN conjunct2, THEN conjunct2, rule_format,
          OF full]) (simp_all add: HDLC_FLAG_def HDLC_RESET_def)
  have f1: "demod_bits a1 = 0x7E \<and> currchar a1 = 0 \<and> bit_idx a1 = 0"
    using p1 by (auto simp: hdlcParse_def Let_def HDLC_FLAG_def split: if_splits)
  have f2: "demod_bits a2 = 0x82 \<and> currchar a2 = 0 \<and> bit_idx a2 = 0"
    using p2
    by (auto simp: hdlcParse_def Let_def hdlc_escape_store HDLC_FLAG_def HDLC_RESET_def
        AX25_ESC_def split: if_splits)
  have f3: "demod_bits a3 = 0xD8 \<and> currchar a3 = 0 \<and> bit_idx a3 = 0"
    using p3
    by (auto simp: hdlcParse_def Let_def hdlc_escape_store HDLC_FLAG_def HDLC_RESET_def
        AX25_ESC_def split: if_splits)
  have w1: "hdlcParse ?h1 False ?q =
      (False, \<lparr>demod_bits = 0x7E, bit_idx = 0, currchar = 0, rxstart = False\<rparr>, ?q)"
    using p1 c1 f1 e [of a1 "0x7E"] by simp
  have w2: "hdlcParse ?h2 False ?q =
      (False, \<lparr>demod_bits = 0x82, bit_idx = 0, currchar = 0, rxstart = False\<rparr>, ?q)"
    using p2 c2 f2 e [of a2 "0x82"] by simp
  have w3: "hdlcParse ?h3 False ?q =
      (False, \<lparr>demod_bits = 0xD8, bit_idx = 0, currchar = 0, rxstart = False\<rparr>, ?q)"
    using p3 c3 f3 e [of a3 "0xD8"] by simp
  let ?af = "rx_scenario ?h2 ?q"
  let ?af1 = "?af\<lparr>curr_phase := 0, found_bits := 2\<rparr>"
  have dm: "adc_demod cfg0 ?af 0 = Some (True, ?af1)" by (rule rx_scenario_demod)
  then have isr: "afsk_adc_isr cfg0 ?af 0 = Some (adc_deframe ?af1)"
    by (simp add: afsk_adc_isr_def)
  have due: "hdlc_due ?h2 False = [0x41]"
    by (simp add: hdlc_due_def Let_def HDLC_FLAG_def HDLC_RESET_def AX25_ESC_def)
  have sc: "hdlc ?af = ?h2" "rx_fifo ?af = ?q" "found_bits ?af1 = 2"
    by (simp_all add: rx_scenario_def)
  have "let due = (if True then hdlc_due (hdlc ?af) (\<not> EDGE_FOUND (found_bits ?af1)) else []);
            free = capacity (rx_fifo ?af) - length (items (rx_fifo ?af))
        in rx_fifo (adc_deframe ?af1) = (rx_fifo ?af)\<lparr>items := items (rx_fifo ?af) @ take free due\<rparr>
            \<and> (length due \<le> free \<longrightarrow> status (adc_deframe ?af1) = status ?af)
            \<and> (free < length due \<longrightarrow>
                 status (adc_deframe ?af1) = status ?af OR AFSK_RXFIFO_OVERRUN
               \<and> status (adc_deframe ?af1) AND AFSK_RXFIFO_OVERRUN = AFSK_RXFIFO_OVERRUN
               \<and> \<not> rxstart (hdlc (adc_deframe ?af1)))"
    by (rule C3_overrun [of ?h2 False ?q cfg0 ?af 0, THEN conjunct2, rule_format, OF dm isr])
  then have "rx_fifo (adc_deframe ?af1) = ?q
      \<and> status (adc_deframe ?af1) AND AFSK_RXFIFO_OVERRUN = AFSK_RXFIFO_OVERRUN
      \<and> \<not> rxstart (hdlc (adc_deframe ?af1))"
    unfolding sc using edge2 by (simp add: due Let_def overrun_bit)
  with isr w1 w2 w3 show ?thesis by simp
qed

text \<open>
  C10. When the deframer completes a reserved byte while the RX queue has exactly one
  free slot, it pushes \<open>AX25_ESC\<close> and drops the byte itself: the queue ends in an escape
  that no byte follows, the call returns false with \<open>rxstart\<close> cleared, and the ADC
  callback that made the call sets the overrun bit.
\<close>

theorem C10_escape_without_byte:
  assumes "rxstart h"
    and "d = push_bit 1 (demod_bits h) OR (if b then 1 else 0)"
    and "d \<noteq> HDLC_FLAG" "d AND HDLC_RESET \<noteq> HDLC_RESET" "d AND 0x3f \<noteq> 0x3e"
    and "bit_idx h + 1 \<ge> 8"
    and "c = (if b then currchar h OR 0x80 else currchar h)"
    and "c = HDLC_FLAG \<or> c = HDLC_RESET \<or> c = AX25_ESC"
    and "capacity q = length (items q) + 1"
  shows "hdlcParse h b q =
           (False, h\<lparr>demod_bits := d, rxstart := False, currchar := 0, bit_idx := 0\<rparr>,
            q\<lparr>items := items q @ [AX25_ESC]\<rparr>)
         \<and> (\<forall>cfg af s af1.
              adc_demod cfg af s = Some (True, af1) \<longrightarrow> hdlc af = h \<longrightarrow> rx_fifo af = q \<longrightarrow>
              (\<not> EDGE_FOUND (found_bits af1)) = b \<longrightarrow>
                (\<exists>af'. afsk_adc_isr cfg af s = Some af'
                   \<and> items (rx_fifo af') = items q @ [AX25_ESC]
                   \<and> status af' AND AFSK_RXFIFO_OVERRUN = AFSK_RXFIFO_OVERRUN
                   \<and> \<not> rxstart (hdlc af')))"
proof -
  define H where "H = h\<lparr>demod_bits := d, currchar := c, bit_idx := bit_idx h + 1\<rparr>"
  have "hdlcParse h b q =
           (case hdlc_store (hdlc_escape (True, H, q)) of
              (ret, h', q') \<Rightarrow> (ret, h'\<lparr>currchar := 0, bit_idx := 0\<rparr>, q'))"
    unfolding H_def using assms(1-7) by (rule hdlcParse_complete)
  moreover have "currchar H = HDLC_FLAG \<or> currchar H = HDLC_RESET \<or> currchar H = AX25_ESC"
    using assms(8) by (simp add: H_def)
  ultimately have p: "hdlcParse h b q =
           (False, h\<lparr>demod_bits := d, rxstart := False, currchar := 0, bit_idx := 0\<rparr>,
            q\<lparr>items := items q @ [AX25_ESC]\<rparr>)"
    using assms(9) by (simp add: hdlc_escape_store H_def)
  have "\<exists>af'. afsk_adc_isr cfg af s = Some af'
                   \<and> items (rx_fifo af') = items q @ [AX25_ESC]
                   \<and> status af' AND AFSK_RXFIFO_OVERRUN = AFSK_RXFIFO_OVERRUN
                   \<and> \<not> rxstart (hdlc af')"
    if d: "adc_demod cfg af s = Some (True, af1)" and e: "hdlc af = h" "rx_fifo af = q"
      "(\<not> EDGE_FOUND (found_bits af1)) = b" for cfg af s af1
  proof -
    from adc_demod_frame [OF d] e have "hdlc af1 = h" "rx_fifo af1 = q" by simp_all
    with p e(3) have "adc_deframe af1 =
       af1\<lparr>hdlc := h\<lparr>demod_bits := d, rxstart := False, currchar := 0, bit_idx := 0\<rparr>,
           rx_fifo := q\<lparr>items := items q @ [AX25_ESC]\<rparr>,
           status := status af1 OR AFSK_RXFIFO_OVERRUN\<rparr>"
      by (simp add: adc_deframe_def Let_def)
    with d show ?thesis by (simp add: afsk_adc_isr_def overrun_bit)
  qed
  with p show ?thesis by blast
qed

theorem C10_escape_without_byte_witness:
  "hdlcParse \<lparr>demod_bits = 0x6C, bit_idx = 7, currchar = 0x1B, rxstart = True\<rparr> False
      \<lparr>items = [0x7E, 0x41], capacity = 3\<rparr>
   = (False, \<lparr>demod_bits = 0xD8, bit_idx = 0, currchar = 0, rxstart = False\<rparr>,
      \<lparr>items = [0x7E, 0x41, 0x1B], capacity = 3\<rparr>)
   \<and> (\<exists>af'. afsk_adc_isr cfg0
              (rx_scenario \<lparr>demod_bits = 0x6C, bit_idx = 7, currchar = 0x1B, rxstart = True\<rparr>
                 \<lparr>items = [0x7E, 0x41], capacity = 3\<rparr>) 0 = Some af'
         \<and> items (rx_fifo af') = [0x7E, 0x41, 0x1B]
         \<and> status af' AND AFSK_RXFIFO_OVERRUN = AFSK_RXFIFO_OVERRUN
         \<and> \<not> rxstart (hdlc af'))"
proof -
  let ?h = "\<lparr>demod_bits = 0x6C, bit_idx = 7, currchar = 0x1B, rxstart = True\<rparr>"
  let ?q = "\<lparr>items = [0x7E, 0x41 :: uint8_t], capacity = 3\<rparr>"
  have w: "hdlcParse ?h False ?q =
           (False, ?h\<lparr>demod_bits := 0xD8, rxstart := False, currchar := 0, bit_idx := 0\<rparr>,
            ?q\<lparr>items := items ?q @ [AX25_ESC]\<rparr>)
         \<and> (\<forall>cfg af s af1.
              adc_demod cfg af s = Some (True, af1) \<longrightarrow> hdlc af = ?h \<longrightarrow> rx_fifo af = ?q \<longrightarrow>
              (\<not> EDGE_FOUND (found_bits af1)) = False \<longrightarrow>
                (\<exists>af'. afsk_adc_isr cfg af s = Some af'
                   \<and> items (rx_fifo af') = items ?q @ [AX25_ESC]
                   \<and> status af' AND AFSK_RXFIFO_OVERRUN = AFSK_RXFIFO_OVERRUN
                   \<and> \<not> rxstart (hdlc af')))"
    by (rule C10_escape_without_byte [where c = "0x1B"])
       (simp_all add: HDLC_FLAG_def HDLC_RESET_def AX25_ESC_def)
  then have 1: "hdlcParse ?h False ?q =
           (False, \<lparr>demod_bits = 0xD8, bit_idx = 0, currchar = 0, rxstart = False\<rparr>,
            \<lparr>items = [0x7E, 0x41, 0x1B], capacity = 3\<rparr>)"
    by (simp add: AX25_ESC_def)
  have "\<exists>af'. afsk_adc_isr cfg0 (rx_scenario ?h ?q) 0 = Some af'
                   \<and> items (rx_fifo af') = items ?q @ [AX25_ESC]
                   \<and> status af' AND AFSK_RXFIFO_OVERRUN = AFSK_RXFIFO_OVERRUN
                   \<and> \<not> rxstart (hdlc af')"
    using w rx_scenario_demod [of ?h ?q] edge2
    by (simp add: rx_scenario_def)
  then show ?thesis using 1 by (simp add: AX25_ESC_def)
qed


section \<open>The ADC callback: theorems\<close>

lemma sint8_small: "- 128 \<le> k \<Longrightarrow> k < 128 \<Longrightarrow> sint (of_int k :: 8 word) = k"
  by (simp add: sint_sbintrunc' signed_take_bit_int_eq_self)

lemma sint16_small: "- 32768 \<le> k \<Longrightarrow> k < 32768 \<Longrightarrow> sint (of_int k :: 16 word) = k"
  by (simp add: sint_sbintrunc' signed_take_bit_int_eq_self)

lemma sint8_add:
  "- 128 \<le> sint w + k \<Longrightarrow> sint w + k < 128 \<Longrightarrow> sint (w + of_int k :: 8 word) = sint w + k"
proof -
  assume a: "- 128 \<le> sint w + k" "sint w + k < 128"
  have "w + of_int k = (of_int (sint w + k) :: 8 word)" by simp
  then show ?thesis using a by (simp only: sint8_small)
qed

lemma phase_sync_sint:
  assumes "0 \<le> sint phase" "sint phase < 64"
  shows "sint (phase_sync bits phase) =
           sint phase + (if EDGE_FOUND bits then (if sint phase < 32 then 1 else - 1) else 0) + 8"
proof -
  have "phase_sync bits phase =
          phase + of_int ((if EDGE_FOUND bits then (if sint phase < 32 then 1 else - 1) else 0) + 8)"
    by (simp add: phase_sync_def phase_consts Let_def)
  moreover have "sint (phase + of_int ((if EDGE_FOUND bits then (if sint phase < 32 then 1 else - 1) else 0) + 8))
      = sint phase + ((if EDGE_FOUND bits then (if sint phase < 32 then 1 else - 1) else 0) + 8)"
    by (rule sint8_add) (use assms in auto)
  ultimately show ?thesis by simp
qed

text \<open>
  C9. \<open>PHASE_MAX\<close> is 64 and \<open>PHASE_BIT\<close> is 8. From \<open>curr_phase\<close> in \<open>[0, PHASE_MAX)\<close> a
  call of the ADC callback returns with \<open>curr_phase\<close> in \<open>[0, PHASE_MAX)\<close> again: on an
  edge of the sampled bits it adds 1 below \<open>PHASE_MAX / 2\<close> and subtracts 1 otherwise, it
  always adds \<open>PHASE_BIT\<close>, and when the sum reaches \<open>PHASE_MAX\<close> it reduces it modulo
  \<open>PHASE_MAX\<close> and decides one symbol (the vote enters \<open>found_bits\<close>), only then.
\<close>

theorem C9_curr_phase:
  assumes "\<not> fifo_isempty (delay_fifo af)"
    and "0 \<le> sint (curr_phase af)" "sint (curr_phase af) < PHASE_MAX"
  shows "PHASE_MAX = 64 \<and> PHASE_BIT = 8
       \<and> (\<exists>decided af1 af'.
            adc_demod cfg af s = Some (decided, af1) \<and> afsk_adc_isr cfg af s = Some af'
          \<and> (let nudge = (if EDGE_FOUND (sampled_bits af')
                           then (if sint (curr_phase af) < PHASE_MAX div 2 then 1 else - 1)
                           else 0);
                  p = sint (curr_phase af) + nudge + PHASE_BIT
              in decided = (PHASE_MAX \<le> p)
               \<and> sint (curr_phase af') = (if PHASE_MAX \<le> p then p mod PHASE_MAX else p))
          \<and> found_bits af' =
              (if decided
               then push_bit 1 (found_bits af) OR (if majority (sampled_bits af') then 1 else 0)
               else found_bits af)
          \<and> 0 \<le> sint (curr_phase af') \<and> sint (curr_phase af') < PHASE_MAX)"
proof -
  from assms(1) obtain d dq where pop: "fifo_pop (delay_fifo af) = Some (d, dq)"
    by (cases "items (delay_fifo af)") (auto simp: fifo_isempty_def fifo_pop_def)
  let ?y1 = "iir_filter (CONFIG_AFSK_FILTER cfg) (iir_x1 af)
                          (of_int (drop_bit 2 (sint d * sint s))) (iir_y1 af)"
  let ?bits = "push_bit 1 (sampled_bits af) OR (if 0 < sint ?y1 then 1 else 0)"
  define bits where "bits = ?bits"
  define p where "p = sint (curr_phase af)
                      + (if EDGE_FOUND bits then (if sint (curr_phase af) < 32 then 1 else - 1) else 0) + 8"
  have ps: "sint (phase_sync bits (curr_phase af)) = p"
    using assms(2,3) by (simp add: phase_sync_sint p_def phase_consts)
  have pr: "8 \<le> p" "p < 72"
    using assms(2,3) by (auto simp: p_def phase_consts)
  define af1 where "af1 = snd (the (adc_demod cfg af s))"
  have dd: "adc_demod cfg af s \<noteq> None" "fst (the (adc_demod cfg af s)) = (64 \<le> p)"
    and sb: "sampled_bits af1 = bits"
    and cp: "curr_phase af1 = (if 64 \<le> p then of_int (p mod 64) else phase_sync bits (curr_phase af))"
    and fb: "found_bits af1 = (if 64 \<le> p
               then push_bit 1 (found_bits af) OR (if majority bits then 1 else 0)
               else found_bits af)"
    using ps unfolding af1_def bits_def
    by (auto simp: adc_demod_def Let_def phase_consts pop)
  from dd have d: "adc_demod cfg af s = Some (64 \<le> p, af1)"
    by (auto simp: af1_def)
  define af' where "af' = (if 64 \<le> p then adc_deframe af1 else af1)"
  have isr: "afsk_adc_isr cfg af s = Some af'"
    by (simp add: afsk_adc_isr_def d af'_def)
  have fr: "curr_phase af' = curr_phase af1" "sampled_bits af' = sampled_bits af1"
    "found_bits af' = found_bits af1"
    by (simp_all add: af'_def adc_deframe_frame)
  have m: "0 \<le> p mod 64" "p mod 64 < 64" by simp_all
  have sc: "sint (curr_phase af') = (if 64 \<le> p then p mod 64 else p)"
    using ps m by (simp add: fr cp sint8_small)
  show ?thesis
    using d isr sc pr m
    by (auto simp: phase_consts Let_def fr sb fb p_def)
qed

theorem C9_curr_phase_witness:
  "\<not> fifo_isempty (delay_fifo (rx_scenario (hdlc (afsk_init cfg0)) (rx_fifo (afsk_init cfg0))))
   \<and> sint (curr_phase (rx_scenario (hdlc (afsk_init cfg0)) (rx_fifo (afsk_init cfg0)))) = 56
   \<and> PHASE_MAX = 64
   \<and> (\<exists>af'. afsk_adc_isr cfg0 (rx_scenario (hdlc (afsk_init cfg0)) (rx_fifo (afsk_init cfg0))) 0
               = Some af'
          \<and> 0 \<le> sint (curr_phase af') \<and> sint (curr_phase af') < PHASE_MAX)"
proof -
  let ?a = "rx_scenario (hdlc (afsk_init cfg0)) (rx_fifo (afsk_init cfg0))"
  have h: "\<not> fifo_isempty (delay_fifo ?a)" "sint (curr_phase ?a) = 56"
    by (simp_all add: rx_scenario_def afsk_init_cfg0 fifo_isempty_def)
  have "0 \<le> sint (curr_phase ?a)" "sint (curr_phase ?a) < PHASE_MAX"
    using h(2) by (simp_all add: phase_consts)
  from C9_curr_phase [OF h(1) this, of cfg0 0] h show ?thesis
    by (simp only: Let_def) blast
qed

lemma sint8_abs: "\<bar>sint (w :: 8 word)\<bar> \<le> 128"
  using sint_ge [of w] sint_lt [of w] by simp

lemma discriminator_range:
  "\<bar>sint (d :: 8 word) * sint (s :: 8 word)\<bar> \<le> 16384"
proof -
  have "\<bar>sint d * sint s\<bar> = \<bar>sint d\<bar> * \<bar>sint s\<bar>" by (simp add: abs_mult)
  also have "\<dots> \<le> 128 * 128"
    by (intro mult_mono sint8_abs) simp_all
  finally show ?thesis by simp
qed

lemma discriminator_sint:
  "sint (of_int (drop_bit 2 (sint (d :: 8 word) * sint (s :: 8 word))) :: 16 word)
     = (sint d * sint s) div 4
   \<and> \<bar>(sint d * sint s) div 4\<bar> \<le> 4096"
proof -
  have r: "\<bar>sint d * sint s\<bar> \<le> 16384" by (rule discriminator_range)
  then have b: "- 4096 \<le> (sint d * sint s) div 4" "(sint d * sint s) div 4 \<le> 4096" by arith+
  then have "sint (of_int ((sint d * sint s) div 4) :: 16 word) = (sint d * sint s) div 4"
    by (intro sint16_small) simp_all
  with b show ?thesis by (simp add: drop_bit_eq_div)
qed

lemma signed_drop_bit_of_int:
  "signed_drop_bit n (w :: 16 word) = of_int (sint w div 2 ^ n)"
proof -
  have "signed_drop_bit n w = of_int (sint (signed_drop_bit n w))" by simp
  then show ?thesis by (simp only: sint_signed_drop_bit_eq drop_bit_eq_div)
qed

lemma sum5_bound:
  fixes a b h e t :: int
  shows "\<bar>a\<bar> \<le> 4096 \<Longrightarrow> \<bar>b\<bar> \<le> 4096 \<Longrightarrow> - 12000 \<le> h \<Longrightarrow> h \<le> 12000 \<Longrightarrow>
         - 3000 \<le> e \<Longrightarrow> e \<le> 3000 \<Longrightarrow> - 750 \<le> t \<Longrightarrow> t \<le> 750 \<Longrightarrow>
         \<bar>b + a + h + e + t\<bar> \<le> 24000"
  by linarith

lemma iir_as_specified_bound:
  fixes a b y :: int
  assumes "\<bar>a\<bar> \<le> 4096" "\<bar>b\<bar> \<le> 4096" "\<bar>y\<bar> \<le> 24000"
  shows "\<bar>iir_as_specified kind b a y\<bar> \<le> 24000"
proof -
  have 1: "- 12000 \<le> y div 2" "y div 2 \<le> 12000" using assms(3) by arith+
  have 2: "- 3000 \<le> y div 8" "y div 8 \<le> 3000" using assms(3) by arith+
  have 3: "- 750 \<le> y div 32" "y div 32 \<le> 750" using assms(3) by arith+
  show ?thesis
  proof (cases kind)
    case AFSK_BUTTERWORTH
    have "\<bar>b + a + y div 2 + y div 8 + y div 32\<bar> \<le> 24000"
      using assms(1,2) 1 2 3 by (rule sum5_bound)
    then show ?thesis by (simp add: iir_as_specified_def AFSK_BUTTERWORTH)
  next
    case AFSK_CHEBYSHEV
    have "\<bar>b + a + y div 2 + 0 + 0\<bar> \<le> 24000"
      using assms(1,2) 1 by (rule sum5_bound) simp_all
    then show ?thesis by (simp add: iir_as_specified_def AFSK_CHEBYSHEV)
  qed
qed

lemma iir_filter_sint:
  assumes "\<bar>sint x0\<bar> \<le> 4096" "\<bar>sint x1\<bar> \<le> 4096" "\<bar>sint y0\<bar> \<le> 24000"
  shows "sint (iir_filter kind x0 x1 y0) = iir_as_specified kind (sint x1) (sint x0) (sint y0)
         \<and> \<bar>iir_as_specified kind (sint x1) (sint x0) (sint y0)\<bar> \<le> 24000"
proof -
  have e: "iir_filter kind x0 x1 y0 = of_int (iir_as_specified kind (sint x1) (sint x0) (sint y0))"
    by (cases kind) (simp_all add: iir_filter_def iir_as_specified_def signed_drop_bit_of_int)
  have b: "\<bar>iir_as_specified kind (sint x1) (sint x0) (sint y0)\<bar> \<le> 24000"
    using assms by (rule iir_as_specified_bound)
  then have "sint (of_int (iir_as_specified kind (sint x1) (sint x0) (sint y0)) :: 16 word)
             = iir_as_specified kind (sint x1) (sint x0) (sint y0)"
    by (intro sint16_small) arith+
  with e b show ?thesis by simp
qed

lemma dac_sample_frame:
  "rx_part (snd (dac_sample af)) = rx_part af \<and> rx_fifo (snd (dac_sample af)) = rx_fifo af
   \<and> status (snd (dac_sample af)) = status af
   \<and> bit_stuff (snd (dac_sample af)) = bit_stuff af
   \<and> stuff_cnt (snd (dac_sample af)) = stuff_cnt af
   \<and> sending (snd (dac_sample af)) = sending af"
  by (simp add: dac_sample_def rx_part_def Let_def)

lemma dac_emit_bit_frame:
  "rx_part (dac_emit_bit af) = rx_part af \<and> rx_fifo (dac_emit_bit af) = rx_fifo af
   \<and> status (dac_emit_bit af) = status af \<and> bit_stuff (dac_emit_bit af) = bit_stuff af
   \<and> sending (dac_emit_bit af) = sending af"
  by (simp add: dac_emit_bit_def rx_part_def Let_def)

lemma dac_new_char_frame:
  assumes "dac_new_char af = Some r"
  shows "case r of
           TxStop a \<Rightarrow> rx_part a = rx_part af \<and> rx_fifo a = rx_fifo af \<and> status a = status af
         | TxNext a \<Rightarrow> rx_part a = rx_part af \<and> rx_fifo a = rx_fifo af \<and> status a = status af"
  using assms
  by (auto simp: dac_new_char_def dac_stop_def rx_part_def fifo_pop_def Let_def
      split: if_splits list.splits)

lemma afsk_dac_isr_frame:
  assumes "afsk_dac_isr af = Some (out, af')"
  shows "rx_part af' = rx_part af \<and> rx_fifo af' = rx_fifo af \<and> status af' = status af"
proof (cases "sample_count af = 0")
  case False
  with assms have "af' = snd (dac_sample af)" by (auto simp: afsk_dac_isr_def)
  then show ?thesis by (simp add: dac_sample_frame)
next
  case True
  show ?thesis
  proof (cases "tx_bit af = 0")
    case False
    with True assms have "af' = snd (dac_sample (dac_emit_bit af))"
      by (auto simp: afsk_dac_isr_def)
    then show ?thesis by (simp add: dac_sample_frame dac_emit_bit_frame)
  next
    case z: True
    from True z assms obtain r where r: "dac_new_char af = Some r"
      and c: "(case r of TxStop a \<Rightarrow> af' = a | TxNext a \<Rightarrow> af' = snd (dac_sample (dac_emit_bit a)))"
      by (auto simp: afsk_dac_isr_def split: option.splits tx_fetch.splits)
    from dac_new_char_frame [OF r] c show ?thesis
      by (cases r) (simp_all add: dac_sample_frame dac_emit_bit_frame)
  qed
qed

lemma afsk_init_iir: "iir_in_range (afsk_init cfg)"
  by (simp add: iir_in_range_def afsk_init_def fifo_isempty_def fifo_init_def SAMPLESPERBIT_def r4)

lemma adc_iir_step:
  assumes "iir_in_range af"
  shows "\<exists>d dq af'. fifo_pop (delay_fifo af) = Some (d, dq)
           \<and> afsk_adc_isr cfg af s = Some af'
           \<and> iir_x0 af' = iir_x1 af \<and> iir_y0 af' = iir_y1 af
           \<and> sint (iir_x1 af') = (sint d * sint s) div 4
           \<and> sint (iir_y1 af') =
               iir_as_specified (CONFIG_AFSK_FILTER cfg) (sint (iir_x1 af')) (sint (iir_x0 af'))
                 (sint (iir_y0 af'))
           \<and> iir_in_range af'"
proof -
  from assms obtain d dq where pop: "fifo_pop (delay_fifo af) = Some (d, dq)"
    by (cases "items (delay_fifo af)") (auto simp: iir_in_range_def fifo_isempty_def fifo_pop_def)
  let ?x1 = "of_int (drop_bit 2 (sint d * sint s)) :: int16_t"
  let ?y1 = "iir_filter (CONFIG_AFSK_FILTER cfg) (iir_x1 af) ?x1 (iir_y1 af)"
  define af1 where "af1 = snd (the (adc_demod cfg af s))"
  have dd: "adc_demod cfg af s \<noteq> None"
    and f: "iir_x0 af1 = iir_x1 af" "iir_y0 af1 = iir_y1 af" "iir_x1 af1 = ?x1" "iir_y1 af1 = ?y1"
      "items (delay_fifo af1) = items dq @ [s]"
    unfolding af1_def
    by (auto simp: adc_demod_def Let_def pop fifo_push_def)
  define af' where "af' = (if fst (the (adc_demod cfg af s)) then adc_deframe af1 else af1)"
  have isr: "afsk_adc_isr cfg af s = Some af'"
    using dd by (auto simp: afsk_adc_isr_def af'_def af1_def)
  have g: "iir_x0 af' = iir_x1 af" "iir_y0 af' = iir_y1 af" "iir_x1 af' = ?x1" "iir_y1 af' = ?y1"
      "items (delay_fifo af') = items dq @ [s]"
    by (simp_all add: af'_def adc_deframe_frame f)
  have x: "sint ?x1 = (sint d * sint s) div 4" "\<bar>sint ?x1\<bar> \<le> 4096"
    using discriminator_sint [of d s] by simp_all
  have y: "sint ?y1 = iir_as_specified (CONFIG_AFSK_FILTER cfg) (sint ?x1) (sint (iir_x1 af)) (sint (iir_y1 af))"
    "\<bar>sint ?y1\<bar> \<le> 24000"
    using iir_filter_sint [of "iir_x1 af" ?x1 "iir_y1 af" "CONFIG_AFSK_FILTER cfg"] assms x(2)
    by (simp_all add: iir_in_range_def)
  have "iir_in_range af'"
    using x y by (simp add: iir_in_range_def g fifo_isempty_def)
  with pop isr x y show ?thesis by (simp add: g)
qed

lemma reachable_iir: "reachable cfg af \<Longrightarrow> iir_in_range af"
proof (induction rule: reachable.induct)
  case reach_init
  show ?case by (rule afsk_init_iir)
next
  case (reach_adc af s af')
  from adc_iir_step [OF reach_adc.IH, of cfg s] reach_adc.hyps(2) show ?case by auto
next
  case (reach_dac af out af')
  from afsk_dac_isr_frame [OF reach_dac.hyps(2)] reach_dac.IH show ?case
    by (simp add: iir_in_range_def rx_part_def)
next
  case (reach_push af c)
  then show ?case by (simp add: iir_in_range_def)
next
  case (reach_txStart af)
  then show ?case by (simp add: iir_in_range_def afsk_txStart_def Let_def)
next
  case (reach_read af c rx)
  then show ?case by (simp add: iir_in_range_def)
next
  case (reach_clearerr af)
  then show ?case by (simp add: iir_in_range_def)
qed

text \<open>
  C4. In every context the modem reaches, a call of the ADC callback pops a delayed
  sample \<open>d\<close> and returns with \<open>x[n-1]\<close> and \<open>y[n-1]\<close> the former \<open>x[n]\<close> and \<open>y[n]\<close>,
  \<open>x[n]\<close> the product of \<open>d\<close> and the current sample shifted right by 2, and \<open>y[n]\<close>
  exactly \<open>x[n] + x[n-1] + (y[n-1] >> 1) + (y[n-1] >> 3) + (y[n-1] >> 5)\<close> for Butterworth
  and \<open>x[n] + x[n-1] + (y[n-1] >> 1)\<close> for Chebyshev, as integers: the 16-bit taps do not
  wrap.
\<close>

theorem C4_iir_update:
  assumes "reachable cfg af"
  shows "\<exists>d dq af'. fifo_pop (delay_fifo af) = Some (d, dq)
           \<and> afsk_adc_isr cfg af s = Some af'
           \<and> iir_x0 af' = iir_x1 af \<and> iir_y0 af' = iir_y1 af
           \<and> sint (iir_x1 af') = (sint d * sint s) div 2 ^ 2
           \<and> sint (iir_y1 af') =
               (case CONFIG_AFSK_FILTER cfg of
                  AFSK_BUTTERWORTH \<Rightarrow>
                    sint (iir_x1 af') + sint (iir_x0 af') + sint (iir_y0 af') div 2 ^ 1
                      + sint (iir_y0 af') div 2 ^ 3 + sint (iir_y0 af') div 2 ^ 5
                | AFSK_CHEBYSHEV \<Rightarrow>
                    sint (iir_x1 af') + sint (iir_x0 af') + sint (iir_y0 af') div 2 ^ 1)"
  using adc_iir_step [OF reachable_iir [OF assms], of cfg s]
  by (auto simp: iir_as_specified_def split: afsk_filter.splits)

lemma adc_run_reachable:
  "reachable cfg af \<Longrightarrow> adc_run cfg af ss = Some af' \<Longrightarrow> reachable cfg af'"
proof (induction ss arbitrary: af)
  case Nil
  then show ?case by simp
next
  case (Cons s ss)
  from Cons.prems(2) obtain a where a: "afsk_adc_isr cfg af s = Some a"
    and r: "adc_run cfg a ss = Some af'"
    by (auto split: option.splits)
  from Cons.prems(1) a have "reachable cfg a" by (rule reach_adc)
  then show ?case using r by (rule Cons.IH)
qed

lemma adc_run_four:
  "\<exists>af. adc_run cfg0 (afsk_init cfg0) [100, 100, 100, 100] = Some af
        \<and> items (delay_fifo af) = [100, 100, 100, 100]
        \<and> iir_x1 af = 0 \<and> iir_y1 af = 0"
  unfolding afsk_init_cfg0
  by (simp add: afsk_adc_isr_def adc_demod_def adc_deframe_def hdlcParse_def fifo_pop_def
      fifo_push_def fifo_isfull_def iir_filter_def cfg0_def phase_sync_def EDGE_FOUND_def
      BITS_DIFFER_def majority_def phase_consts HDLC_FLAG_def HDLC_RESET_def Let_def)

theorem C4_iir_update_witness:
  "\<exists>af af'. adc_run cfg0 (afsk_init cfg0) [100, 100, 100, 100] = Some af
     \<and> reachable cfg0 af
     \<and> afsk_adc_isr cfg0 af 100 = Some af'
     \<and> sint (iir_x1 af') = 2500 \<and> sint (iir_y1 af') = 2500"
proof -
  from adc_run_four obtain af
    where run: "adc_run cfg0 (afsk_init cfg0) [100, 100, 100, 100] = Some af"
      and dl: "items (delay_fifo af) = [100, 100, 100, 100]"
      and z: "iir_x1 af = 0" "iir_y1 af = 0"
    by blast
  have r: "reachable cfg0 af" using reach_init run by (rule adc_run_reachable)
  from C4_iir_update [OF r, of 100]
  obtain d dq af' where pop: "fifo_pop (delay_fifo af) = Some (d, dq)"
    and isr: "afsk_adc_isr cfg0 af 100 = Some af'"
    and x0: "iir_x0 af' = iir_x1 af" and y0: "iir_y0 af' = iir_y1 af"
    and x1: "sint (iir_x1 af') = (sint d * sint (100 :: int8_t)) div 2 ^ 2"
    and y1: "sint (iir_y1 af') =
               sint (iir_x1 af') + sint (iir_x0 af') + sint (iir_y0 af') div 2 ^ 1
                 + sint (iir_y0 af') div 2 ^ 3 + sint (iir_y0 af') div 2 ^ 5"
    by (auto simp: cfg0_def)
  from pop dl have "d = 100" by (simp add: fifo_pop_def)
  with x1 have "sint (iir_x1 af') = 2500" by simp
  moreover from this y1 x0 y0 z have "sint (iir_y1 af') = 2500" by simp
  ultimately show ?thesis using run r isr by blast
qed

section \<open>The transmit modulator: theorems\<close>

text \<open>
  C7. Calling \<open>afsk_txStart\<close> while \<open>sending\<close> is true leaves \<open>phase_inc\<close>, \<open>phase_acc\<close>,
  \<open>stuff_cnt\<close>, \<open>sending\<close> and \<open>preamble_len\<close> unchanged, and every call, sending or not,
  sets \<open>trailer_len\<close> to the configured trailer length.
\<close>

theorem C7_txStart_while_sending:
  "(sending af \<longrightarrow>
      phase_inc (afsk_txStart cfg af) = phase_inc af
    \<and> phase_acc (afsk_txStart cfg af) = phase_acc af
    \<and> stuff_cnt (afsk_txStart cfg af) = stuff_cnt af
    \<and> sending (afsk_txStart cfg af) = sending af
    \<and> preamble_len (afsk_txStart cfg af) = preamble_len af)
   \<and> trailer_len (afsk_txStart cfg af)
       = of_nat (DIV_ROUND (CONFIG_AFSK_TRAILER_LEN cfg * BITRATE) 8000)"
  by (simp add: afsk_txStart_def Let_def)

theorem C7_txStart_while_sending_witness:
  "sending ((afsk_init cfg0)\<lparr>sending := True, phase_inc := SPACE_INC, phase_acc := 300, stuff_cnt := 3\<rparr>)
   \<and> phase_inc (afsk_txStart cfg0
        ((afsk_init cfg0)\<lparr>sending := True, phase_inc := SPACE_INC, phase_acc := 300, stuff_cnt := 3\<rparr>))
       = SPACE_INC
   \<and> trailer_len (afsk_txStart cfg0
        ((afsk_init cfg0)\<lparr>sending := True, phase_inc := SPACE_INC, phase_acc := 300, stuff_cnt := 3\<rparr>))
       = 1"
  using C7_txStart_while_sending
    [of "(afsk_init cfg0)\<lparr>sending := True, phase_inc := SPACE_INC, phase_acc := 300, stuff_cnt := 3\<rparr>" cfg0]
  by (simp add: cfg0_def DIV_ROUND_def BITRATE_def)

lemma fifo_pop_Cons: "items q = c # cs \<Longrightarrow> fifo_pop q = Some (c, q\<lparr>items := cs\<rparr>)"
  by (simp add: fifo_pop_def)

text \<open>
  C8. At a symbol boundary where a new byte is due and the byte popped from the TX queue
  is \<open>AX25_ESC\<close>: if the queue is then empty, the callback stops the DAC interrupt,
  clears \<open>sending\<close> and returns 0; otherwise it pops the following byte into \<open>curr_out\<close>
  and sends its first symbol with \<open>bit_stuff\<close> set (a stuffed zero when five ones
  precede, else the byte's first bit).
\<close>

theorem C8_escape_underrun:
  assumes "sample_count af = 0" "tx_bit af = 0" "preamble_len af = 0"
    and "items (tx_fifo af) = AX25_ESC # rest"
  shows "(rest = [] \<longrightarrow>
           (\<exists>af'. afsk_dac_isr af = Some (0, af') \<and> \<not> sending af' \<and> \<not> dac_irq af'
                  \<and> fifo_isempty (tx_fifo af')))
       \<and> (\<forall>c cs. rest = c # cs \<longrightarrow>
           (\<exists>out af'. afsk_dac_isr af = Some (out, af')
                  \<and> curr_out af' = c \<and> items (tx_fifo af') = cs \<and> bit_stuff af'
                  \<and> sending af' = sending af \<and> dac_irq af' = dac_irq af
                  \<and> tx_bit af' =
                      (if BIT_STUFF_LEN \<le> (if bit_stuff af then stuff_cnt af else 0)
                       then 0x01 else 0x02)))"
proof (intro conjI allI impI)
  assume r: "rest = []"
  have "dac_new_char af = Some (TxStop (dac_stop (af\<lparr>stuff_cnt := (if bit_stuff af then stuff_cnt af else 0),
           bit_stuff := True, curr_out := AX25_ESC, tx_fifo := (tx_fifo af)\<lparr>items := []\<rparr>\<rparr>)))"
    using assms r
    by (simp add: dac_new_char_def fifo_isempty_def fifo_pop_Cons Let_def HDLC_FLAG_def AX25_ESC_def)
  then show "\<exists>af'. afsk_dac_isr af = Some (0, af') \<and> \<not> sending af' \<and> \<not> dac_irq af'
                  \<and> fifo_isempty (tx_fifo af')"
    using assms by (simp add: afsk_dac_isr_def dac_stop_def fifo_isempty_def)
next
  fix c cs
  assume r: "rest = c # cs"
  have "dac_new_char af = Some (TxNext (af\<lparr>stuff_cnt := (if bit_stuff af then stuff_cnt af else 0),
           bit_stuff := True, curr_out := c, tx_fifo := (tx_fifo af)\<lparr>items := cs\<rparr>, tx_bit := 0x01\<rparr>))"
    using assms r
    by (simp add: dac_new_char_def fifo_isempty_def fifo_pop_Cons Let_def HDLC_FLAG_def AX25_ESC_def)
  then show "\<exists>out af'. afsk_dac_isr af = Some (out, af')
                  \<and> curr_out af' = c \<and> items (tx_fifo af') = cs \<and> bit_stuff af'
                  \<and> sending af' = sending af \<and> dac_irq af' = dac_irq af
                  \<and> tx_bit af' =
                      (if BIT_STUFF_LEN \<le> (if bit_stuff af then stuff_cnt af else 0)
                       then 0x01 else 0x02)"
    using assms by (simp add: afsk_dac_isr_def dac_emit_bit_def dac_sample_def Let_def)
qed

theorem C8_escape_underrun_witness:
  "(\<exists>af'. afsk_dac_isr ((afsk_init cfg0)\<lparr>sending := True, dac_irq := True,
              tx_fifo := \<lparr>items = [0x1B], capacity = 8\<rparr>\<rparr>) = Some (0, af')
          \<and> \<not> sending af' \<and> \<not> dac_irq af')
   \<and> (\<exists>out af'. afsk_dac_isr ((afsk_init cfg0)\<lparr>sending := True, dac_irq := True,
              tx_fifo := \<lparr>items = [0x1B, 0x7E, 0x41], capacity = 8\<rparr>\<rparr>) = Some (out, af')
          \<and> curr_out af' = 0x7E \<and> items (tx_fifo af') = [0x41] \<and> bit_stuff af' \<and> sending af'
          \<and> tx_bit af' = 0x02)"
proof -
  let ?a = "(afsk_init cfg0)\<lparr>sending := True, dac_irq := True,
              tx_fifo := \<lparr>items = [0x1B], capacity = 8\<rparr>\<rparr>"
  let ?b = "(afsk_init cfg0)\<lparr>sending := True, dac_irq := True,
              tx_fifo := \<lparr>items = [0x1B, 0x7E, 0x41], capacity = 8\<rparr>\<rparr>"
  have 1: "\<exists>af'. afsk_dac_isr ?a = Some (0, af') \<and> \<not> sending af' \<and> \<not> dac_irq af'"
    using C8_escape_underrun [of ?a "[]"]
    by (auto simp: afsk_init_cfg0 AX25_ESC_def)
  have 2: "\<exists>out af'. afsk_dac_isr ?b = Some (out, af')
          \<and> curr_out af' = 0x7E \<and> items (tx_fifo af') = [0x41] \<and> bit_stuff af' \<and> sending af'
          \<and> tx_bit af' = 0x02"
    using C8_escape_underrun [of ?b "[0x7E, 0x41]"]
    by (auto simp: afsk_init_cfg0 AX25_ESC_def BIT_STUFF_LEN_def)
  from 1 2 show ?thesis by blast
qed

















lemma dac_run_numeral:
  "dac_run (numeral k) af =
     (case afsk_dac_isr af of
        None \<Rightarrow> None
      | Some (out, af') \<Rightarrow>
          if \<not> sending af' then Some ([], af')
          else (case dac_run (pred_numeral k) af' of
                  None \<Rightarrow> None
                | Some (syms, af'') \<Rightarrow>
                    Some ((if sample_count af = 0 then [observe_symbol af af'] else []) @ syms,
                          af'')))"
  by (simp add: numeral_eq_Suc)

lemma five_le_one: "((5 :: uint8_t) \<le> 1) = False"
  by (simp add: word_le_nat_alt)

lemmas dac_eval =
  dac_run_numeral afsk_dac_isr_def dac_new_char_def dac_emit_bit_def dac_sample_def dac_stop_def
  observe_symbol_def fifo_isempty_def fifo_pop_def consts_simps HDLC_FLAG_def HDLC_RESET_def
  AX25_ESC_def BIT_STUFF_LEN_def five_le_one SWITCH_TONE_def SIN_LEN_def Let_def

lemma write_A:
  "afsk_write cfg0 (afsk_init cfg0) [0x41] =
     Some ((afsk_init cfg0)\<lparr>tx_fifo := \<lparr>items = [0x41], capacity = 8\<rparr>, sending := True,
              dac_irq := True, preamble_len := 1, trailer_len := 1\<rparr>)"
  unfolding afsk_init_cfg0
  by (simp add: afsk_txStart_def fifo_isfull_def fifo_push_def consts_simps
      cfg0_def DIV_ROUND_def BITRATE_def)






lemma push_bit_mask: "(push_bit 1 (m :: uint8_t) = m) = (m = 0)"
proof
  assume "push_bit 1 m = m"
  then have "m + m = m" by (simp add: push_bit_eq_mult mult_2_right)
  then show "m = 0" by simp
qed simp

lemma SWITCH_TONE_changes: "SWITCH_TONE inc \<noteq> inc"
  by (simp add: SWITCH_TONE_def consts_simps)

lemma dac_emit_bit_symbol:
  assumes "tx_bit a \<noteq> 0" "tx_bit af = 0 \<longrightarrow> tx_bit a = 0x01"
    "tx_bit af \<noteq> 0 \<longrightarrow> tx_bit a = tx_bit af" "phase_inc a = phase_inc af"
  shows "observe_symbol af (snd (dac_sample (dac_emit_bit a))) =
           (if bit_stuff a \<and> BIT_STUFF_LEN \<le> stuff_cnt a then StuffedZero
            else DataBit (curr_out a AND tx_bit a \<noteq> 0))"
  using assms SWITCH_TONE_changes [of "phase_inc af"]
  by (auto simp: observe_symbol_def dac_sample_def dac_emit_bit_def Let_def push_bit_mask)

lemma dac_new_char_next:
  assumes "dac_new_char af = Some (TxNext a)"
  shows "tx_bit a = 0x01 \<and> phase_inc a = phase_inc af"
  using assms
  by (auto simp: dac_new_char_def fifo_pop_def Let_def split: if_splits list.splits)

lemma observe_symbol_sound:
  assumes "sample_count af = 0" "afsk_dac_isr af = Some (out, af')"
  shows "(tx_bit af \<noteq> 0 \<longrightarrow>
            observe_symbol af af' =
              (if bit_stuff af \<and> BIT_STUFF_LEN \<le> stuff_cnt af then StuffedZero
               else DataBit (curr_out af AND tx_bit af \<noteq> 0)))
       \<and> (\<forall>a. tx_bit af = 0 \<longrightarrow> dac_new_char af = Some (TxNext a) \<longrightarrow>
            observe_symbol af af' =
              (if bit_stuff a \<and> BIT_STUFF_LEN \<le> stuff_cnt a then StuffedZero
               else DataBit (curr_out a AND tx_bit a \<noteq> 0)))"
proof (intro conjI allI impI)
  assume n: "tx_bit af \<noteq> 0"
  with assms have "af' = snd (dac_sample (dac_emit_bit af))" by (auto simp: afsk_dac_isr_def)
  with n show "observe_symbol af af' =
              (if bit_stuff af \<and> BIT_STUFF_LEN \<le> stuff_cnt af then StuffedZero
               else DataBit (curr_out af AND tx_bit af \<noteq> 0))"
    by (simp add: dac_emit_bit_symbol)
next
  fix a
  assume z: "tx_bit af = 0" and f: "dac_new_char af = Some (TxNext a)"
  with assms have "af' = snd (dac_sample (dac_emit_bit a))" by (auto simp: afsk_dac_isr_def)
  with z dac_new_char_next [OF f] show "observe_symbol af af' =
              (if bit_stuff a \<and> BIT_STUFF_LEN \<le> stuff_cnt a then StuffedZero
               else DataBit (curr_out a AND tx_bit a \<noteq> 0))"
    by (simp add: dac_emit_bit_symbol)
qed

text \<open>
  C2. From the initialised context of a build with one preamble and one trailer flag,
  after the write of the single byte \<open>0x41\<close> the DAC callback sends 24 symbols and then
  stops: the flag \<open>01111110\<close>, the byte \<open>10000010\<close> and the flag \<open>01111110\<close>, least
  significant bit first, every one a data bit and none a stuffed zero.
\<close>

theorem C2_single_flag_frame:
  "\<exists>af syms af'.
     afsk_write cfg0 (afsk_init cfg0) [0x41] = Some af
   \<and> preamble_len af = 1 \<and> trailer_len af = 1
   \<and> dac_run 193 af = Some (syms, af')
   \<and> syms = map DataBit
       [False, True, True, True, True, True, True, False,
        True, False, False, False, False, False, True, False,
        False, True, True, True, True, True, True, False]
   \<and> \<not> sending af' \<and> \<not> dac_irq af'"
proof -
  let ?a = "(afsk_init cfg0)\<lparr>tx_fifo := \<lparr>items = [0x41], capacity = 8\<rparr>, sending := True,
              dac_irq := True, preamble_len := 1, trailer_len := 1\<rparr>"
  have "case dac_run 193 ?a of None \<Rightarrow> False
        | Some (syms, af') \<Rightarrow>
            syms = map DataBit
              [False, True, True, True, True, True, True, False,
               True, False, False, False, False, False, True, False,
               False, True, True, True, True, True, True, False]
            \<and> \<not> sending af' \<and> \<not> dac_irq af'"
    unfolding afsk_init_cfg0 by (simp add: dac_eval)
  then show ?thesis
    unfolding write_A by (auto split: option.splits)
qed


end
